theory Spec2Isabelle
  imports Main "HOL-Library.Word"
begin

unbundle bit_operations_syntax

section \<open>The restricted-push priority queue\<close>

text \<open>
  \<^verbatim>\<open>PriorityQueueWithRestrictedPush\<close> of \<^verbatim>\<open>generic_max_flow.h\<close>: two vectors of
  (element, priority) pairs, one for the even and one for the odd priorities. A vector is
  a list whose head is the vector's back, so \<^verbatim>\<open>push_back\<close> is \<open>#\<close> and \<^verbatim>\<open>pop_back\<close>
  drops the head.
\<close>

record 'e PriorityQueueWithRestrictedPush =
  even_queue :: "('e \<times> int) list"
  odd_queue :: "('e \<times> int) list"

definition empty_queue :: "'e PriorityQueueWithRestrictedPush" where
  "empty_queue = \<lparr>even_queue = [], odd_queue = []\<rparr>"

definition IsEmpty :: "'e PriorityQueueWithRestrictedPush \<Rightarrow> bool" where
  "IsEmpty q = (even_queue q = [] \<and> odd_queue q = [])"

definition Clear :: "'e PriorityQueueWithRestrictedPush \<Rightarrow> 'e PriorityQueueWithRestrictedPush" where
  "Clear q = q\<lparr>even_queue := [], odd_queue := []\<rparr>"

definition Push :: "'e \<Rightarrow> int \<Rightarrow> 'e PriorityQueueWithRestrictedPush \<Rightarrow> 'e PriorityQueueWithRestrictedPush" where
  "Push element priority q =
     (if priority AND 1 \<noteq> 0
      then q\<lparr>odd_queue := (element, priority) # odd_queue q\<rparr>
      else q\<lparr>even_queue := (element, priority) # even_queue q\<rparr>)"

text \<open>\<^verbatim>\<open>PopBack\<close> on an empty vector is undefined in the source; the model returns \<open>None\<close>.\<close>

definition PopBack :: "('e \<times> int) list \<Rightarrow> ('e \<times> ('e \<times> int) list) option" where
  "PopBack queue = (case queue of [] \<Rightarrow> None | x # rest \<Rightarrow> Some (fst x, rest))"

definition Pop :: "'e PriorityQueueWithRestrictedPush \<Rightarrow> ('e \<times> 'e PriorityQueueWithRestrictedPush) option" where
  "Pop q =
     (if even_queue q = []
      then map_option (\<lambda>(e, r). (e, q\<lparr>odd_queue := r\<rparr>)) (PopBack (odd_queue q))
      else if odd_queue q = []
      then map_option (\<lambda>(e, r). (e, q\<lparr>even_queue := r\<rparr>)) (PopBack (even_queue q))
      else if snd (hd (odd_queue q)) > snd (hd (even_queue q))
      then map_option (\<lambda>(e, r). (e, q\<lparr>odd_queue := r\<rparr>)) (PopBack (odd_queue q))
      else map_option (\<lambda>(e, r). (e, q\<lparr>even_queue := r\<rparr>)) (PopBack (even_queue q)))"

subsection \<open>What the queue is documented to do\<close>

text \<open>
  The documented behaviour, on the stored pairs listed most recent push first: a pop takes
  the most recently pushed pair among those of highest priority.
\<close>

datatype 'e queue_op = DoPush 'e int | DoPop

definition highest_priority :: "('e \<times> int) list \<Rightarrow> int" where
  "highest_priority xs = Max (set (map snd xs))"

fun take_first :: "int \<Rightarrow> ('e \<times> int) list \<Rightarrow> ('e \<times> ('e \<times> int) list) option" where
  "take_first m [] = None"
| "take_first m (x # xs) =
     (if snd x = m then Some (fst x, xs)
      else map_option (\<lambda>(e, r). (e, x # r)) (take_first m xs))"

definition documented_pop :: "('e \<times> int) list \<Rightarrow> ('e \<times> ('e \<times> int) list) option" where
  "documented_pop xs = (if xs = [] then None else take_first (highest_priority xs) xs)"

text \<open>
  Running a sequence of operations: on the two-vector queue of the source, and on the
  stored pairs as documented. Both return the popped elements in order, \<open>None\<close> for a
  pop that is undefined.
\<close>

fun run_queue :: "'e queue_op list \<Rightarrow> 'e PriorityQueueWithRestrictedPush \<Rightarrow> 'e option list" where
  "run_queue [] q = []"
| "run_queue (DoPush e p # ops) q = run_queue ops (Push e p q)"
| "run_queue (DoPop # ops) q =
     (case Pop q of None \<Rightarrow> [None] | Some (e, q') \<Rightarrow> Some e # run_queue ops q')"

fun run_documented :: "'e queue_op list \<Rightarrow> ('e \<times> int) list \<Rightarrow> 'e option list" where
  "run_documented [] xs = []"
| "run_documented (DoPush e p # ops) xs = run_documented ops ((e, p) # xs)"
| "run_documented (DoPop # ops) xs =
     (case documented_pop xs of None \<Rightarrow> [None] | Some (e, xs') \<Rightarrow> Some e # run_documented ops xs')"

text \<open>
  The precondition of the queue along a sequence of operations: every push has a priority
  of at least the highest stored priority minus one, and every pop finds a stored pair.
\<close>

fun restricted_pushes :: "'e queue_op list \<Rightarrow> ('e \<times> int) list \<Rightarrow> bool" where
  "restricted_pushes [] xs = True"
| "restricted_pushes (DoPush e p # ops) xs =
     ((xs = [] \<or> p \<ge> highest_priority xs - 1) \<and> restricted_pushes ops ((e, p) # xs))"
| "restricted_pushes (DoPop # ops) xs =
     (case documented_pop xs of None \<Rightarrow> False | Some (e, xs') \<Rightarrow> restricted_pushes ops xs')"


section \<open>The graph container and the solver state\<close>

text \<open>
  Modelled from the spec: the graph container (\<^verbatim>\<open>ortools/graph/graph.h\<close>,
  \<^verbatim>\<open>ebert_graph.h\<close>, \<^verbatim>\<open>graphs.h\<close>) is not among the sources; the solver only
  consumes its interface. A graph is the record of what that interface returns: the
  counts and reservations, the endpoints of an arc, the paired opposite arc, the
  sentinel \<^verbatim>\<open>kNilArc\<close>, the largest value of the node index type, and for each node
  the arcs its three iterators list, in iteration order. Node indices are naturals; arc
  indices and node heights are integers (opposite arcs have negative indices).
\<close>

record Graph =
  num_nodes :: nat
  num_arcs :: nat
  NodeReservation :: nat
  ArcReservation :: nat
  Head :: "int \<Rightarrow> nat"
  Tail :: "int \<Rightarrow> nat"
  OppositeArc :: "int \<Rightarrow> int"
  IsArcValid :: "int \<Rightarrow> bool"
  kNilArc :: int
  NodeIndex_max :: int
  OutgoingArcs :: "nat \<Rightarrow> int list"
  IncomingArcs :: "nat \<Rightarrow> int list"
  OutgoingOrOppositeIncomingArcs :: "nat \<Rightarrow> int list"

text \<open>
  An iterator that resumes at a given arc lists the node's arcs from that arc to the end
  of the adjacency list; resumed at \<^verbatim>\<open>kNilArc\<close> it lists nothing.
\<close>

definition OutgoingOrOppositeIncomingArcsFrom :: "Graph \<Rightarrow> nat \<Rightarrow> int \<Rightarrow> int list" where
  "OutgoingOrOppositeIncomingArcsFrom g node arc =
     dropWhile (\<lambda>a. a \<noteq> arc) (OutgoingOrOppositeIncomingArcs g node)"

text \<open>
  Modelled from the spec: \<^verbatim>\<open>FlowQuantity\<close> is declared in the missing
  \<^verbatim>\<open>ebert_graph.h\<close>; the spec describes a signed integer type wide enough to sum
  capacities, with largest value \<open>Q_MAX\<close>. Quantities are integers and the ceiling is
  the largest 64-bit signed value.
\<close>

definition kMaxFlowQuantity :: int where
  "kMaxFlowQuantity = 9223372036854775807"

text \<open>
  A \<^verbatim>\<open>FlowQuantity\<close> is a 64-bit signed integer. \<^verbatim>\<open>x -= flow\<close> and
  \<^verbatim>\<open>x += flow\<close> on such a variable store the result reduced into the range
  \<open>- 2^63 .. 2^63 - 1\<close>: what two's-complement arithmetic leaves in memory when the
  exact result does not fit (the C++ standard leaves that case undefined).
  \<open>FlowQuantity_in_range\<close> says that a value fits, so that storing it changes nothing.
\<close>

definition FlowQuantity_store :: "int \<Rightarrow> int" where
  "FlowQuantity_store x =
     (x + 9223372036854775808) mod 18446744073709551616 - 9223372036854775808"

definition FlowQuantity_in_range :: "int \<Rightarrow> bool" where
  "FlowQuantity_in_range x = (- 9223372036854775808 \<le> x \<and> x \<le> 9223372036854775807)"

datatype Status = NOT_SOLVED | OPTIMAL | INT_OVERFLOW | BAD_INPUT | BAD_RESULT

datatype error = OutOfBounds

text \<open>
  The members of \<^verbatim>\<open>GenericMaxFlow\<close>. The per-node arrays are maps from node indices;
  they are allocated with \<^verbatim>\<open>NodeReservation\<close> entries, and the two accesses at an index
  the caller chose freely (\<^verbatim>\<open>source_\<close> in \<^verbatim>\<open>InitializePreflow\<close>, \<^verbatim>\<open>sink_\<close> in
  \<^verbatim>\<open>GetOptimalFlow\<close>) are checked against that size.
\<close>

record GenericMaxFlow =
  node_excess :: "nat \<Rightarrow> int"
  node_potential :: "nat \<Rightarrow> int"
  residual_arc_capacity :: "int \<Rightarrow> int"
  first_admissible_arc :: "nat \<Rightarrow> int"
  active_node_by_height :: "nat PriorityQueueWithRestrictedPush"
  source :: nat
  sink :: nat
  status :: Status
  node_in_bfs_queue :: "nat \<Rightarrow> bool"
  bfs_queue :: "nat list"

text \<open>
  The constructor. Its member initialiser list names \<^verbatim>\<open>graph_\<close>,
  \<^verbatim>\<open>residual_arc_capacity_\<close>, \<^verbatim>\<open>source_\<close>, \<^verbatim>\<open>sink_\<close> and \<^verbatim>\<open>stats_\<close>, and its body
  allocates the arrays; \<^verbatim>\<open>status_\<close> is assigned nowhere, so the member holds whatever
  the storage held: the indeterminate value is the last argument.
\<close>

definition GenericMaxFlow_new :: "Graph \<Rightarrow> nat \<Rightarrow> nat \<Rightarrow> Status \<Rightarrow> GenericMaxFlow" where
  "GenericMaxFlow_new g source0 sink0 indeterminate =
     \<lparr>node_excess = (\<lambda>_. 0),
      node_potential = (\<lambda>_. 0),
      residual_arc_capacity = (\<lambda>_. 0),
      first_admissible_arc = (\<lambda>_. kNilArc g),
      active_node_by_height = empty_queue,
      source = source0,
      sink = sink0,
      status = indeterminate,
      node_in_bfs_queue = (\<lambda>_. False),
      bfs_queue = []\<rparr>"

definition Opposite :: "Graph \<Rightarrow> int \<Rightarrow> int" where
  "Opposite g arc = OppositeArc g arc"

definition IsArcDirect :: "Graph \<Rightarrow> int \<Rightarrow> bool" where
  "IsArcDirect g arc = (IsArcValid g arc \<and> arc \<ge> 0)"

definition Flow :: "Graph \<Rightarrow> GenericMaxFlow \<Rightarrow> int \<Rightarrow> int" where
  "Flow g st arc =
     (if IsArcDirect g arc then residual_arc_capacity st (Opposite g arc)
      else - residual_arc_capacity st arc)"

definition Capacity :: "Graph \<Rightarrow> GenericMaxFlow \<Rightarrow> int \<Rightarrow> int" where
  "Capacity g st arc =
     (if IsArcDirect g arc
      then residual_arc_capacity st arc + residual_arc_capacity st (Opposite g arc)
      else 0)"

definition GetOptimalFlow :: "Graph \<Rightarrow> GenericMaxFlow \<Rightarrow> error + int" where
  "GetOptimalFlow g st =
     (if sink st < NodeReservation g then Inr (node_excess st (sink st)) else Inl OutOfBounds)"

definition IsAdmissible :: "Graph \<Rightarrow> GenericMaxFlow \<Rightarrow> nat \<Rightarrow> int \<Rightarrow> bool" where
  "IsAdmissible g st tail arc =
     (residual_arc_capacity st arc > 0 \<and>
      node_potential st tail = node_potential st (Head g arc) + 1)"

definition IsActive :: "GenericMaxFlow \<Rightarrow> nat \<Rightarrow> bool" where
  "IsActive st node = (node \<noteq> source st \<and> node \<noteq> sink st \<and> node_excess st node > 0)"

definition SetCapacityAndClearFlow :: "Graph \<Rightarrow> int \<Rightarrow> int \<Rightarrow> GenericMaxFlow \<Rightarrow> GenericMaxFlow" where
  "SetCapacityAndClearFlow g arc capacity st =
     st\<lparr>residual_arc_capacity :=
          ((residual_arc_capacity st)(arc := capacity))(Opposite g arc := 0)\<rparr>"

definition PushActiveNode :: "nat \<Rightarrow> GenericMaxFlow \<Rightarrow> GenericMaxFlow" where
  "PushActiveNode node st =
     st\<lparr>active_node_by_height :=
          Push node (node_potential st node) (active_node_by_height st)\<rparr>"

definition SetArcCapacity :: "Graph \<Rightarrow> int \<Rightarrow> int \<Rightarrow> GenericMaxFlow \<Rightarrow> GenericMaxFlow" where
  "SetArcCapacity g arc new_capacity st =
     (let free_capacity = residual_arc_capacity st arc;
          capacity_delta = new_capacity - Capacity g st arc
      in if capacity_delta = 0 then st
         else let st1 = st\<lparr>status := NOT_SOLVED\<rparr>
              in if free_capacity + capacity_delta \<ge> 0
                 then st1\<lparr>residual_arc_capacity :=
                        (residual_arc_capacity st1)(arc := free_capacity + capacity_delta)\<rparr>
                 else SetCapacityAndClearFlow g arc new_capacity st1)"

text \<open>
  \<^verbatim>\<open>PushFlow\<close> and \<^verbatim>\<open>FastPushFlow\<close>: four 64-bit stores, in the order of the source.
  The \<^verbatim>\<open>DCHECK\<close>s are compiled out of a release build.
\<close>

definition PushFlow :: "Graph \<Rightarrow> int \<Rightarrow> nat \<Rightarrow> int \<Rightarrow> GenericMaxFlow \<Rightarrow> GenericMaxFlow" where
  "PushFlow g flow tail arc st =
     (let r1 = (residual_arc_capacity st)
                 (arc := FlowQuantity_store (residual_arc_capacity st arc - flow));
          r2 = r1(Opposite g arc := FlowQuantity_store (r1 (Opposite g arc) + flow));
          e1 = (node_excess st)(tail := FlowQuantity_store (node_excess st tail - flow));
          e2 = e1(Head g arc := FlowQuantity_store (e1 (Head g arc) + flow))
      in st\<lparr>residual_arc_capacity := r2, node_excess := e2\<rparr>)"

definition FastPushFlow :: "Graph \<Rightarrow> int \<Rightarrow> nat \<Rightarrow> int \<Rightarrow> GenericMaxFlow \<Rightarrow> GenericMaxFlow" where
  "FastPushFlow g flow tail arc st =
     (let r1 = (residual_arc_capacity st)
                 (arc := FlowQuantity_store (residual_arc_capacity st arc - flow));
          r2 = r1(Opposite g arc := FlowQuantity_store (r1 (Opposite g arc) + flow));
          e1 = (node_excess st)(tail := FlowQuantity_store (node_excess st tail - flow));
          e2 = e1(Head g arc := FlowQuantity_store (e1 (Head g arc) + flow))
      in st\<lparr>residual_arc_capacity := r2, node_excess := e2\<rparr>)"

subsection \<open>InitializePreflow\<close>

definition InitializePreflow :: "Graph \<Rightarrow> GenericMaxFlow \<Rightarrow> error + GenericMaxFlow" where
  "InitializePreflow g st =
     (let max_num_nodes = NodeReservation g;
          st1 = st\<lparr>node_excess := (\<lambda>v. if v < max_num_nodes then 0 else node_excess st v)\<rparr>;
          st2 = fold (\<lambda>arc s. SetCapacityAndClearFlow g arc (Capacity g s arc) s)
                  (map int [0..<num_arcs g]) st1;
          st3 = st2\<lparr>node_potential := (\<lambda>v. if v < max_num_nodes then 0 else node_potential st2 v)\<rparr>
      in if source st3 \<ge> max_num_nodes then Inl OutOfBounds
         else
           let st4 = st3\<lparr>node_potential := (node_potential st3)(source st3 := int (num_nodes g))\<rparr>
           in Inr (st4\<lparr>first_admissible_arc :=
                      (\<lambda>v. if v < max_num_nodes then kNilArc g else first_admissible_arc st4 v)\<rparr>))"


subsection \<open>SaturateOutgoingArcsFromSource\<close>

text \<open>
  The loop over the arcs leaving the source, with its accumulator \<^verbatim>\<open>flow_pushed\<close> and
  its two early returns.
\<close>

fun saturate_arcs :: "Graph \<Rightarrow> int list \<Rightarrow> bool \<Rightarrow> GenericMaxFlow \<Rightarrow> bool \<times> GenericMaxFlow" where
  "saturate_arcs g [] flow_pushed st = (flow_pushed, st)"
| "saturate_arcs g (arc # arcs) flow_pushed st =
     (let flow = residual_arc_capacity st arc
      in if flow = 0 \<or> node_potential st (Head g arc) \<ge> int (num_nodes g)
         then saturate_arcs g arcs flow_pushed st
         else
           let current_flow_out_of_source = - node_excess st (source st);
               capped_flow = kMaxFlowQuantity - current_flow_out_of_source
           in if capped_flow < flow
              then (if capped_flow = 0 then (True, st)
                    else (True, PushFlow g capped_flow (source st) arc st))
              else saturate_arcs g arcs True (PushFlow g flow (source st) arc st))"

definition SaturateOutgoingArcsFromSource :: "Graph \<Rightarrow> GenericMaxFlow \<Rightarrow> bool \<times> GenericMaxFlow" where
  "SaturateOutgoingArcsFromSource g st =
     (if node_excess st (sink st) = kMaxFlowQuantity then (False, st)
      else if node_excess st (source st) = - kMaxFlowQuantity then (False, st)
      else saturate_arcs g (OutgoingArcs g (source st)) False st)"

subsection \<open>GlobalUpdate\<close>

text \<open>One arc of the scan of a node taken from the BFS queue.\<close>

definition global_update_arc :: "Graph \<Rightarrow> int \<Rightarrow> int \<Rightarrow> GenericMaxFlow \<Rightarrow> GenericMaxFlow" where
  "global_update_arc g candidate_distance arc st =
     (let head = Head g arc
      in if node_in_bfs_queue st head then st
         else
           let opposite_arc = Opposite g arc
           in if residual_arc_capacity st opposite_arc > 0
              then
                let st1 = (if node_excess st head > 0
                           then FastPushFlow g
                                  (min (node_excess st head) (residual_arc_capacity st opposite_arc))
                                  head opposite_arc st
                           else st)
                in if node_excess st head > 0 \<and> residual_arc_capacity st1 opposite_arc = 0
                   then st1
                   else st1\<lparr>node_potential := (node_potential st1)(head := candidate_distance),
                            node_in_bfs_queue := (node_in_bfs_queue st1)(head := True),
                            bfs_queue := bfs_queue st1 @ [head]\<rparr>
              else st)"

text \<open>
  The loops below return \<open>None\<close> for a run that does not return: one that does not
  terminate, or one that reaches an operation the source leaves undefined (a pop from an
  empty vector).
\<close>

partial_function (option) global_update_bfs :: "Graph \<Rightarrow> nat \<Rightarrow> GenericMaxFlow \<Rightarrow> GenericMaxFlow option" where
  "global_update_bfs g queue_index st =
     (if queue_index \<noteq> length (bfs_queue st)
      then
        let node = bfs_queue st ! queue_index;
            candidate_distance = node_potential st node + 1
        in global_update_bfs g (queue_index + 1)
             (fold (global_update_arc g candidate_distance)
                (OutgoingOrOppositeIncomingArcs g node) st)
      else Some st)"

declare global_update_bfs.simps [code]

definition global_update_unreached :: "Graph \<Rightarrow> GenericMaxFlow \<Rightarrow> GenericMaxFlow" where
  "global_update_unreached g st =
     fold (\<lambda>node s. if \<not> node_in_bfs_queue s node
                     then s\<lparr>node_potential := (node_potential s)(node := 2 * int (num_nodes g) - 1)\<rparr>
                     else s)
       [0..<num_nodes g] st"

definition global_update_activate :: "GenericMaxFlow \<Rightarrow> GenericMaxFlow" where
  "global_update_activate st =
     fold (\<lambda>node s. if node_excess s node > 0 then PushActiveNode node s else s)
       (tl (bfs_queue st)) st"

text \<open>The state in which the BFS starts: only the sink is queued, sink and source are marked.\<close>

definition global_update_start :: "GenericMaxFlow \<Rightarrow> GenericMaxFlow" where
  "global_update_start st =
     (let st1 = st\<lparr>bfs_queue := [], node_in_bfs_queue := (\<lambda>_. False)\<rparr>;
          st2 = st1\<lparr>node_in_bfs_queue := (node_in_bfs_queue st1)(sink st1 := True)\<rparr>;
          st3 = st2\<lparr>node_in_bfs_queue := (node_in_bfs_queue st2)(source st2 := True)\<rparr>
      in st3\<lparr>bfs_queue := bfs_queue st3 @ [sink st3]\<rparr>)"

definition GlobalUpdate :: "Graph \<Rightarrow> GenericMaxFlow \<Rightarrow> GenericMaxFlow option" where
  "GlobalUpdate g st =
     map_option (\<lambda>s. global_update_activate (global_update_unreached g s))
       (global_update_bfs g 0 (global_update_start st))"

subsection \<open>Relabel and Discharge\<close>

fun relabel_arcs :: "Graph \<Rightarrow> GenericMaxFlow \<Rightarrow> nat \<Rightarrow> int list \<Rightarrow> int \<times> int \<Rightarrow> int \<times> int" where
  "relabel_arcs g st node [] acc = acc"
| "relabel_arcs g st node (arc # arcs) (min_height, first_admissible) =
     (if residual_arc_capacity st arc > 0
      then
        let head_height = node_potential st (Head g arc)
        in if head_height < min_height
           then (if head_height + 1 = node_potential st node then (head_height, arc)
                 else relabel_arcs g st node arcs (head_height, arc))
           else relabel_arcs g st node arcs (min_height, first_admissible)
      else relabel_arcs g st node arcs (min_height, first_admissible))"

definition Relabel :: "Graph \<Rightarrow> nat \<Rightarrow> GenericMaxFlow \<Rightarrow> GenericMaxFlow" where
  "Relabel g node st =
     (case relabel_arcs g st node (OutgoingOrOppositeIncomingArcs g node)
             (NodeIndex_max g, kNilArc g) of
        (min_height, first_admissible) \<Rightarrow>
          st\<lparr>node_potential := (node_potential st)(node := min_height + 1),
             first_admissible_arc := (first_admissible_arc st)(node := first_admissible)\<rparr>)"

text \<open>
  The scan of \<^verbatim>\<open>Discharge\<close>: the flag is true when the scan returned from
  \<^verbatim>\<open>Discharge\<close> because the excess of the node reached zero.
\<close>

fun discharge_arcs :: "Graph \<Rightarrow> nat \<Rightarrow> int list \<Rightarrow> GenericMaxFlow \<Rightarrow> bool \<times> GenericMaxFlow" where
  "discharge_arcs g node [] st = (False, st)"
| "discharge_arcs g node (arc # arcs) st =
     (if IsAdmissible g st node arc
      then
        let head = Head g arc;
            st1 = (if node_excess st head = 0 then PushActiveNode head st else st);
            delta = min (node_excess st1 node) (residual_arc_capacity st1 arc);
            st2 = FastPushFlow g delta node arc st1
        in if node_excess st2 node = 0
           then (True, st2\<lparr>first_admissible_arc := (first_admissible_arc st2)(node := arc)\<rparr>)
           else discharge_arcs g node arcs st2
      else discharge_arcs g node arcs st)"

partial_function (option) Discharge :: "Graph \<Rightarrow> nat \<Rightarrow> GenericMaxFlow \<Rightarrow> GenericMaxFlow option" where
  "Discharge g node st =
     (let scan = discharge_arcs g node
                   (OutgoingOrOppositeIncomingArcsFrom g node (first_admissible_arc st node)) st
      in if fst scan then Some (snd scan)
         else
           let st2 = Relabel g node (snd scan)
           in if node_potential st2 node \<ge> int (num_nodes g) then Some st2
              else Discharge g node st2)"

declare Discharge.simps [code]


subsection \<open>PushFlowExcessBackToSource\<close>

text \<open>
  The local variables of \<^verbatim>\<open>PushFlowExcessBackToSource\<close> together with the solver they
  work on. The three vectors are lists in \<^verbatim>\<open>push_back\<close> order (the back is the last
  element), since \<^verbatim>\<open>index_branch\<close> holds positions in \<^verbatim>\<open>arc_stack\<close>.
\<close>

record dfs_state =
  stored :: "nat \<Rightarrow> bool"
  visited :: "nat \<Rightarrow> bool"
  arc_stack :: "int list"
  index_branch :: "nat list"
  reverse_topological_order :: "nat list"
  solver :: GenericMaxFlow

fun find_cycle_begin :: "Graph \<Rightarrow> int list \<Rightarrow> nat list \<Rightarrow> nat \<Rightarrow> nat \<Rightarrow> nat" where
  "find_cycle_begin g stack branch head 0 = 0"
| "find_cycle_begin g stack branch head (Suc k) =
     (if Head g (stack ! (branch ! k)) \<noteq> head
      then find_cycle_begin g stack branch head k
      else Suc k)"

text \<open>
  The flow that can be cancelled on the cycle, and the least position of
  \<^verbatim>\<open>index_branch\<close> whose arc it saturates: the loop runs from the end of the branch
  down to \<^verbatim>\<open>cycle_begin\<close>.
\<close>

definition cycle_max_flow :: "Graph \<Rightarrow> dfs_state \<Rightarrow> nat \<Rightarrow> int \<Rightarrow> int \<times> nat" where
  "cycle_max_flow g d cycle_begin flow =
     fold (\<lambda>i (max_flow, first_saturated_index).
             let arc_on_cycle = arc_stack d ! (index_branch d ! i)
             in if Flow g (solver d) arc_on_cycle \<le> max_flow
                then (Flow g (solver d) arc_on_cycle, i)
                else (max_flow, first_saturated_index))
       (rev [cycle_begin..<length (index_branch d)])
       (flow, length (index_branch d))"

text \<open>
  One arc of the branch inside a cancelled cycle: its flow is pushed back, and its head
  is marked as not visited when the search will backtrack over it.
\<close>

definition cancel_cycle_arc :: "Graph \<Rightarrow> int \<Rightarrow> nat \<Rightarrow> nat \<Rightarrow> dfs_state \<Rightarrow> dfs_state" where
  "cancel_cycle_arc g max_flow first_saturated_index i s =
     (let arc_on_cycle = arc_stack s ! (index_branch s ! i);
          s1 = s\<lparr>solver := PushFlow g (- max_flow) (Tail g arc_on_cycle) arc_on_cycle (solver s)\<rparr>
      in if i \<ge> first_saturated_index
         then s1\<lparr>visited := (visited s1)(Head g arc_on_cycle := False)\<rparr>
         else s1)"

definition cancel_cycle :: "Graph \<Rightarrow> nat \<Rightarrow> int \<Rightarrow> nat \<Rightarrow> int \<Rightarrow> nat \<Rightarrow> dfs_state \<Rightarrow> dfs_state" where
  "cancel_cycle g node arc cycle_begin max_flow first_saturated_index d =
     fold (cancel_cycle_arc g max_flow first_saturated_index)
       (rev [cycle_begin..<length (index_branch d)])
       (d\<lparr>solver := PushFlow g (- max_flow) node arc (solver d)\<rparr>)"

text \<open>
  The loop over the outgoing arcs of a node that the search has just reached; it stops
  early when a cancelled cycle makes the search backtrack over the node.
\<close>

fun dfs_arcs :: "Graph \<Rightarrow> nat \<Rightarrow> int list \<Rightarrow> dfs_state \<Rightarrow> dfs_state" where
  "dfs_arcs g node [] d = d"
| "dfs_arcs g node (arc # arcs) d =
     (let flow = Flow g (solver d) arc;
          head = Head g arc
      in if flow > 0 \<and> \<not> stored d head
         then
           (if \<not> visited d head
            then dfs_arcs g node arcs (d\<lparr>arc_stack := arc_stack d @ [arc]\<rparr>)
            else
              let cycle_begin = find_cycle_begin g (arc_stack d) (index_branch d) head
                                  (length (index_branch d));
                  mf = cycle_max_flow g d cycle_begin flow;
                  max_flow = fst mf;
                  first_saturated_index = snd mf;
                  d1 = cancel_cycle g node arc cycle_begin max_flow first_saturated_index d
              in if first_saturated_index < length (index_branch d1)
                 then d1\<lparr>arc_stack := take (index_branch d1 ! first_saturated_index) (arc_stack d1),
                         index_branch := take first_saturated_index (index_branch d1)\<rparr>
                 else dfs_arcs g node arcs d1)
         else dfs_arcs g node arcs d)"

partial_function (option) dfs_loop :: "Graph \<Rightarrow> dfs_state \<Rightarrow> dfs_state option" where
  "dfs_loop g d =
     (if arc_stack d = [] then Some d
      else
        let node = Head g (last (arc_stack d))
        in if visited d node
           then
             (if \<not> stored d node
              then
                (if index_branch d = [] then None
                 else dfs_loop g
                        (d\<lparr>stored := (stored d)(node := True),
                           reverse_topological_order := reverse_topological_order d @ [node],
                           index_branch := butlast (index_branch d),
                           arc_stack := butlast (arc_stack d)\<rparr>))
              else dfs_loop g (d\<lparr>arc_stack := butlast (arc_stack d)\<rparr>))
           else
             dfs_loop g
               (dfs_arcs g node (OutgoingArcs g node)
                  (d\<lparr>visited := (visited d)(node := True),
                     index_branch := index_branch d @ [length (arc_stack d) - 1]\<rparr>)))"

declare dfs_loop.simps [code]

fun return_arcs :: "Graph \<Rightarrow> nat \<Rightarrow> int list \<Rightarrow> GenericMaxFlow \<Rightarrow> GenericMaxFlow" where
  "return_arcs g node [] st = st"
| "return_arcs g node (arc # arcs) st =
     (let opposite_arc = Opposite g arc
      in if residual_arc_capacity st opposite_arc > 0
         then
           let flow = min (node_excess st node) (residual_arc_capacity st opposite_arc);
               st1 = PushFlow g flow node opposite_arc st
           in if node_excess st1 node = 0 then st1 else return_arcs g node arcs st1
         else return_arcs g node arcs st)"

definition return_excess :: "Graph \<Rightarrow> nat list \<Rightarrow> GenericMaxFlow \<Rightarrow> GenericMaxFlow" where
  "return_excess g order st =
     fold (\<lambda>node s. if node_excess s node = 0 then s
                     else return_arcs g node (IncomingArcs g node) s)
       order st"

definition dfs_start :: "Graph \<Rightarrow> GenericMaxFlow \<Rightarrow> dfs_state" where
  "dfs_start g st =
     \<lparr>stored = (\<lambda>_. False)(sink st := True),
      visited = ((\<lambda>_. False)(sink st := True))(source st := True),
      arc_stack = filter (\<lambda>arc. Flow g st arc > 0) (OutgoingArcs g (source st)),
      index_branch = [],
      reverse_topological_order = [],
      solver = st\<rparr>"

definition PushFlowExcessBackToSource :: "Graph \<Rightarrow> GenericMaxFlow \<Rightarrow> GenericMaxFlow option" where
  "PushFlowExcessBackToSource g st =
     map_option (\<lambda>d. return_excess g (reverse_topological_order d) (solver d))
       (dfs_loop g (dfs_start g st))"

subsection \<open>RefineWithGlobalUpdate\<close>

text \<open>
  The loop that empties the container of active nodes, with the local vector
  \<^verbatim>\<open>skip_active_node\<close> and the counter \<^verbatim>\<open>num_skipped\<close>.
\<close>

partial_function (option) discharge_active_nodes ::
  "Graph \<Rightarrow> (nat \<Rightarrow> nat) \<Rightarrow> nat \<Rightarrow> GenericMaxFlow \<Rightarrow> (nat \<times> GenericMaxFlow) option" where
  "discharge_active_nodes g skip_active_node num_skipped st =
     (if IsEmpty (active_node_by_height st) then Some (num_skipped, st)
      else
        Option.bind (Pop (active_node_by_height st)) (\<lambda>popped.
          let node = fst popped;
              st1 = st\<lparr>active_node_by_height := snd popped\<rparr>
          in if skip_active_node node > 1
             then discharge_active_nodes g skip_active_node
                    (if node \<noteq> sink st1 \<and> node \<noteq> source st1 then num_skipped + 1 else num_skipped)
                    st1
             else
               Option.bind (Discharge g node st1) (\<lambda>st2.
                 discharge_active_nodes g
                   (if node_potential st2 node > node_potential st1 node + 1
                    then skip_active_node(node := skip_active_node node + 1)
                    else skip_active_node)
                   num_skipped st2)))"

declare discharge_active_nodes.simps [code]

text \<open>The \<^verbatim>\<open>do ... while (num_skipped > 0)\<close> loop.\<close>

partial_function (option) global_update_rounds :: "Graph \<Rightarrow> GenericMaxFlow \<Rightarrow> GenericMaxFlow option" where
  "global_update_rounds g st =
     (let skip_active_node = (((\<lambda>_. 0)(sink st := 2))(source st := 2)) :: nat \<Rightarrow> nat
      in Option.bind (GlobalUpdate g st) (\<lambda>st1.
           Option.bind (discharge_active_nodes g skip_active_node 0 st1) (\<lambda>r.
             if fst r > 0 then global_update_rounds g (snd r) else Some (snd r))))"

declare global_update_rounds.simps [code]

partial_function (option) RefineWithGlobalUpdate :: "Graph \<Rightarrow> GenericMaxFlow \<Rightarrow> GenericMaxFlow option" where
  "RefineWithGlobalUpdate g st =
     (let pushed = SaturateOutgoingArcsFromSource g st
      in if fst pushed
         then Option.bind (global_update_rounds g (snd pushed)) (\<lambda>st1.
                Option.bind (PushFlowExcessBackToSource g st1) (\<lambda>st2.
                  RefineWithGlobalUpdate g st2))
         else Some (snd pushed))"

declare RefineWithGlobalUpdate.simps [code]

subsection \<open>AugmentingPathExists, the cuts and Solve\<close>

definition augmenting_arc :: "Graph \<Rightarrow> GenericMaxFlow \<Rightarrow> int \<Rightarrow> (nat \<Rightarrow> bool) \<times> nat list \<Rightarrow> (nat \<Rightarrow> bool) \<times> nat list" where
  "augmenting_arc g st arc acc =
     (if residual_arc_capacity st arc > 0
      then
        let head = Head g arc
        in if \<not> fst acc head then ((fst acc)(head := True), snd acc @ [head]) else acc
      else acc)"

partial_function (option) augmenting_search ::
  "Graph \<Rightarrow> GenericMaxFlow \<Rightarrow> (nat \<Rightarrow> bool) \<Rightarrow> nat list \<Rightarrow> (nat \<Rightarrow> bool) option" where
  "augmenting_search g st is_reached to_process =
     (if to_process = [] then Some is_reached
      else
        let node = last to_process;
            acc = fold (augmenting_arc g st) (OutgoingOrOppositeIncomingArcs g node)
                    (is_reached, butlast to_process)
        in augmenting_search g st (fst acc) (snd acc))"

declare augmenting_search.simps [code]

definition AugmentingPathExists :: "Graph \<Rightarrow> GenericMaxFlow \<Rightarrow> bool option" where
  "AugmentingPathExists g st =
     map_option (\<lambda>is_reached. is_reached (sink st))
       (augmenting_search g st ((\<lambda>_. False)(source st := True)) [source st])"

definition reachable_arc :: "Graph \<Rightarrow> bool \<Rightarrow> int \<Rightarrow> GenericMaxFlow \<Rightarrow> GenericMaxFlow" where
  "reachable_arc g reverse arc st =
     (let head = Head g arc
      in if node_in_bfs_queue st head then st
         else if residual_arc_capacity st (if reverse then Opposite g arc else arc) = 0 then st
         else st\<lparr>node_in_bfs_queue := (node_in_bfs_queue st)(head := True),
                 bfs_queue := bfs_queue st @ [head]\<rparr>)"

partial_function (option) reachable_bfs :: "Graph \<Rightarrow> bool \<Rightarrow> nat \<Rightarrow> GenericMaxFlow \<Rightarrow> GenericMaxFlow option" where
  "reachable_bfs g reverse queue_index st =
     (if queue_index \<noteq> length (bfs_queue st)
      then reachable_bfs g reverse (queue_index + 1)
             (fold (reachable_arc g reverse)
                (OutgoingOrOppositeIncomingArcs g (bfs_queue st ! queue_index)) st)
      else Some st)"

declare reachable_bfs.simps [code]

text \<open>
  \<^verbatim>\<open>ComputeReachableNodes<reverse>(start, result)\<close>: the vector written through
  \<^verbatim>\<open>result\<close> is returned with the solver.
\<close>

definition ComputeReachableNodes ::
  "Graph \<Rightarrow> bool \<Rightarrow> nat \<Rightarrow> GenericMaxFlow \<Rightarrow> (nat list \<times> GenericMaxFlow) option" where
  "ComputeReachableNodes g reverse start st =
     (if start \<ge> num_nodes g then Some ([start], st)
      else
        let st1 = st\<lparr>bfs_queue := [], node_in_bfs_queue := (\<lambda>_. False)\<rparr>;
            st2 = st1\<lparr>bfs_queue := bfs_queue st1 @ [start]\<rparr>;
            st3 = st2\<lparr>node_in_bfs_queue := (node_in_bfs_queue st2)(start := True)\<rparr>
        in map_option (\<lambda>s. (bfs_queue s, s)) (reachable_bfs g reverse 0 st3))"

definition GetSourceSideMinCut :: "Graph \<Rightarrow> GenericMaxFlow \<Rightarrow> (nat list \<times> GenericMaxFlow) option" where
  "GetSourceSideMinCut g st = ComputeReachableNodes g False (source st) st"

definition GetSinkSideMinCut :: "Graph \<Rightarrow> GenericMaxFlow \<Rightarrow> (nat list \<times> GenericMaxFlow) option" where
  "GetSinkSideMinCut g st = ComputeReachableNodes g True (sink st) st"

text \<open>
  \<^verbatim>\<open>Solve\<close> returns its boolean with the solver. \<^verbatim>\<open>DCHECK(CheckResult())\<close> is compiled
  out of a release build and is not part of the model.
\<close>

definition Solve :: "Graph \<Rightarrow> GenericMaxFlow \<Rightarrow> (error + bool \<times> GenericMaxFlow) option" where
  "Solve g st =
     (case InitializePreflow g (st\<lparr>status := NOT_SOLVED\<rparr>) of
        Inl e \<Rightarrow> Some (Inl e)
      | Inr st1 \<Rightarrow>
          if sink st1 \<ge> num_nodes g \<or> source st1 \<ge> num_nodes g
          then Some (Inr (True, st1\<lparr>status := OPTIMAL\<rparr>))
          else
            Option.bind (RefineWithGlobalUpdate g st1) (\<lambda>st2.
              let st3 = st2\<lparr>status := OPTIMAL\<rparr>
              in if node_excess st3 (sink st3) = kMaxFlowQuantity
                 then Option.bind (AugmentingPathExists g st3) (\<lambda>path.
                        if path then Some (Inr (True, st3\<lparr>status := INT_OVERFLOW\<rparr>))
                        else Some (Inr (True, st3)))
                 else Some (Inr (True, st3))))"


section \<open>Well-formed graphs and small instances\<close>

text \<open>
  What the solver relies on from the container (spec, sections 3 and 6): the node arrays
  cover the nodes; the arcs \<open>0, ..., num_arcs - 1\<close> are the direct arcs, each paired
  with an opposite arc of negative index that runs the other way; and the iterators of
  a node list, without repetition, the direct arcs leaving it, the direct arcs entering
  it, and the arcs (direct or opposite) whose tail it is.
\<close>

definition direct_arcs :: "Graph \<Rightarrow> int list" where
  "direct_arcs g = map int [0..<num_arcs g]"

definition all_arcs :: "Graph \<Rightarrow> int list" where
  "all_arcs g = direct_arcs g @ map (Opposite g) (direct_arcs g)"

definition graph_ok :: "Graph \<Rightarrow> bool" where
  "graph_ok g =
     (num_nodes g \<le> NodeReservation g \<and>
      (\<forall>a. Opposite g (Opposite g a) = a) \<and>
      (\<forall>a. Opposite g a \<noteq> a) \<and>
      (\<forall>a\<in>set (direct_arcs g).
         IsArcValid g a \<and> Opposite g a < 0 \<and>
         Head g a < num_nodes g \<and> Tail g a < num_nodes g \<and>
         Head g (Opposite g a) = Tail g a \<and> Tail g (Opposite g a) = Head g a) \<and>
      (\<forall>v\<in>set [0..<num_nodes g].
         distinct (OutgoingArcs g v) \<and>
         set (OutgoingArcs g v) = set (filter (\<lambda>a. Tail g a = v) (direct_arcs g)) \<and>
         distinct (IncomingArcs g v) \<and>
         set (IncomingArcs g v) = set (filter (\<lambda>a. Head g a = v) (direct_arcs g)) \<and>
         distinct (OutgoingOrOppositeIncomingArcs g v) \<and>
         set (OutgoingOrOppositeIncomingArcs g v) = set (filter (\<lambda>a. Tail g a = v) (all_arcs g))) \<and>
      kNilArc g \<notin> set (all_arcs g))"

text \<open>
  A container built from the list of its arcs, given as (tail, head) pairs: arc \<open>a\<close>
  is the pair at position \<open>a\<close>, its opposite is \<open>- a - 1\<close>, and the iterators list
  the arcs by increasing index, direct arcs first.
\<close>

definition list_graph :: "nat \<Rightarrow> nat \<Rightarrow> (nat \<times> nat) list \<Rightarrow> Graph" where
  "list_graph n reserved arcs =
     \<lparr>num_nodes = n, num_arcs = length arcs,
      NodeReservation = reserved, ArcReservation = length arcs,
      Head = (\<lambda>a. if a \<ge> 0 then snd (arcs ! nat a) else fst (arcs ! nat (- a - 1))),
      Tail = (\<lambda>a. if a \<ge> 0 then fst (arcs ! nat a) else snd (arcs ! nat (- a - 1))),
      OppositeArc = (\<lambda>a. - a - 1),
      IsArcValid = (\<lambda>a. - int (length arcs) \<le> a \<and> a < int (length arcs)),
      kNilArc = 2147483647,
      NodeIndex_max = 2147483647,
      OutgoingArcs = (\<lambda>v. filter (\<lambda>a. fst (arcs ! nat a) = v) (map int [0..<length arcs])),
      IncomingArcs = (\<lambda>v. filter (\<lambda>a. snd (arcs ! nat a) = v) (map int [0..<length arcs])),
      OutgoingOrOppositeIncomingArcs = (\<lambda>v.
         filter (\<lambda>a. fst (arcs ! nat a) = v) (map int [0..<length arcs]) @
         map (\<lambda>a. - a - 1)
           (filter (\<lambda>a. snd (arcs ! nat a) = v) (map int [0..<length arcs])))\<rparr>"

text \<open>A fresh solver whose arcs \<open>0, 1, ...\<close> were given the listed capacities.\<close>

definition with_capacities :: "Graph \<Rightarrow> int list \<Rightarrow> GenericMaxFlow \<Rightarrow> GenericMaxFlow" where
  "with_capacities g caps st =
     fold (\<lambda>(a, c) s. SetArcCapacity g a c s) (zip (map int [0..<length caps]) caps) st"

definition two_node_graph :: Graph where
  "two_node_graph = list_graph 2 2 [(0, 1)]"

text \<open>The arc of \<open>two_node_graph\<close> with capacity 7 and a flow of 5 on it.\<close>

definition loaded_arc :: GenericMaxFlow where
  "loaded_arc =
     (PushFlow two_node_graph 5 0 0
        (SetArcCapacity two_node_graph 0 7 (GenericMaxFlow_new two_node_graph 0 1 NOT_SOLVED)))
     \<lparr>status := OPTIMAL\<rparr>"

text \<open>A graph of two nodes whose reservation covers four, and a graph of one node.\<close>

definition reserved_graph :: Graph where
  "reserved_graph = list_graph 2 4 [(0, 1)]"

definition one_node_graph :: Graph where
  "one_node_graph = list_graph 1 1 []"

text \<open>
  A solver on \<open>reserved_graph\<close> as an earlier computation may leave it: the arc of
  capacity 5 carries a flow of 3, and node 3, which lies in the reservation and not in the
  graph, holds an excess of 9.
\<close>

definition stale_solver :: "nat \<Rightarrow> nat \<Rightarrow> GenericMaxFlow" where
  "stale_solver source0 sink0 =
     (let st = PushFlow reserved_graph 3 0 0
                 (with_capacities reserved_graph [5]
                    (GenericMaxFlow_new reserved_graph source0 sink0 NOT_SOLVED))
      in st\<lparr>node_excess := (node_excess st)(3 := 9)\<rparr>)"

text \<open>The first loop of \<^verbatim>\<open>InitializePreflow\<close>, over a list of arcs.\<close>

definition clear_flows :: "Graph \<Rightarrow> int list \<Rightarrow> GenericMaxFlow \<Rightarrow> GenericMaxFlow" where
  "clear_flows g arcs st = fold (\<lambda>arc s. SetCapacityAndClearFlow g arc (Capacity g s arc) s) arcs st"


text \<open>
  A chain of five nodes \<open>0 \<rightarrow> 1 \<rightarrow> 2 \<rightarrow> 3 \<rightarrow> 4\<close> with capacities 10, 10, 5 and 1,
  source 0 and sink 4.
\<close>

definition chain_graph :: Graph where
  "chain_graph = list_graph 5 5 [(0, 1), (1, 2), (2, 3), (3, 4)]"

definition chain_solver :: GenericMaxFlow where
  "chain_solver =
     with_capacities chain_graph [10, 10, 5, 1] (GenericMaxFlow_new chain_graph 0 4 NOT_SOLVED)"

text \<open>
  A graph of four nodes with the arcs \<open>0 \<rightarrow> 1\<close>, \<open>1 \<rightarrow> 2\<close>, \<open>2 \<rightarrow> 1\<close> and \<open>2 \<rightarrow> 3\<close>, all of
  capacity 5, source 0 and sink 3, carrying one unit from the source to the sink and two
  more units around the cycle \<open>1 \<rightarrow> 2 \<rightarrow> 1\<close>.
\<close>

definition cycle_graph :: Graph where
  "cycle_graph = list_graph 4 4 [(0, 1), (1, 2), (2, 1), (2, 3)]"

definition cycle_solver :: GenericMaxFlow where
  "cycle_solver =
     PushFlow cycle_graph 1 2 3
       (PushFlow cycle_graph 2 2 2
          (PushFlow cycle_graph 3 1 1
             (PushFlow cycle_graph 1 0 0
                (with_capacities cycle_graph [5, 5, 5, 5]
                   (GenericMaxFlow_new cycle_graph 0 3 NOT_SOLVED)))))"

text \<open>
  The search of \<^verbatim>\<open>PushFlowExcessBackToSource\<close> on \<open>cycle_solver\<close> at the moment it
  meets the arc \<open>2 \<rightarrow> 1\<close>: the branch holds the arcs \<open>0 \<rightarrow> 1\<close> and \<open>1 \<rightarrow> 2\<close>.
\<close>

definition cycle_detected :: dfs_state where
  "cycle_detected =
     \<lparr>stored = (\<lambda>_. False)(3 := True),
      visited = ((((\<lambda>_. False)(3 := True))(0 := True))(1 := True))(2 := True),
      arc_stack = [0, 1],
      index_branch = [0, 1],
      reverse_topological_order = [],
      solver = cycle_solver\<rparr>"

section \<open>The queue pops the most recent pair of highest priority\<close>

text \<open>
  The link between the two vectors and the stored pairs: each vector holds the pairs of
  its parity, most recent first, and its priorities never increase from the back.
\<close>

definition odd_priority :: "('e \<times> int) \<Rightarrow> bool" where
  "odd_priority x = (snd x AND 1 \<noteq> 0)"

definition queue_holds :: "'e PriorityQueueWithRestrictedPush \<Rightarrow> ('e \<times> int) list \<Rightarrow> bool" where
  "queue_holds q xs =
     (odd_queue q = filter odd_priority xs \<and>
      even_queue q = filter (\<lambda>x. \<not> odd_priority x) xs \<and>
      sorted_wrt (\<lambda>x y. snd x \<ge> snd y) (odd_queue q) \<and>
      sorted_wrt (\<lambda>x y. snd x \<ge> snd y) (even_queue q))"

lemma odd_priority_iff: "odd_priority x = odd (snd x)"
  by (simp add: odd_priority_def and_one_eq mod_2_eq_odd)

lemma highest_priority_ge: "x \<in> set xs \<Longrightarrow> snd x \<le> highest_priority xs"
  by (simp add: highest_priority_def)

lemma same_parity_ge:
  assumes "odd (p::int) = odd q" and "p \<ge> q - 1"
  shows "p \<ge> q"
proof (rule ccontr)
  assume "\<not> p \<ge> q"
  then have "p = q - 1" using assms(2) by simp
  then show False using assms(1) by simp
qed

lemma Push_holds:
  assumes "queue_holds q xs" and "xs = [] \<or> p \<ge> highest_priority xs - 1"
  shows "queue_holds (Push e p q) ((e, p) # xs)"
proof -
  have le: "snd y \<le> p" if "y \<in> set xs" and "odd (snd y) = odd p" for y
  proof -
    from that(1) assms(2) have "p \<ge> highest_priority xs - 1" by auto
    moreover have "snd y \<le> highest_priority xs" using that(1) by (rule highest_priority_ge)
    ultimately have "p \<ge> snd y - 1" by simp
    with that(2) show ?thesis using same_parity_ge[of p "snd y"] by simp
  qed
  show ?thesis
  proof (cases "odd p")
    case True
    then have "p AND 1 \<noteq> 0" by (simp add: and_one_eq mod_2_eq_odd)
    with assms(1) True le show ?thesis
      by (auto simp: queue_holds_def Push_def odd_priority_iff)
  next
    case False
    then have "\<not> p AND 1 \<noteq> 0" by (simp add: and_one_eq mod_2_eq_odd)
    with assms(1) False le show ?thesis
      by (auto simp: queue_holds_def Push_def odd_priority_iff)
  qed
qed

lemma take_first_filter:
  assumes "filter P xs = x # rest" and "snd x = m" and "\<forall>y\<in>set xs. snd y = m \<longrightarrow> P y"
  shows "\<exists>xs'. take_first m xs = Some (fst x, xs') \<and> filter P xs' = rest \<and>
           filter (\<lambda>y. \<not> P y) xs' = filter (\<lambda>y. \<not> P y) xs"
  using assms
proof (induction xs)
  case Nil
  then show ?case by simp
next
  case (Cons y ys)
  show ?case
  proof (cases "P y")
    case True
    with Cons.prems have "y = x" "filter P ys = rest" by auto
    with Cons.prems True show ?thesis by simp
  next
    case False
    with Cons.prems have ne: "snd y \<noteq> m" by auto
    from False Cons.prems have "filter P ys = x # rest" by simp
    with Cons.IH Cons.prems obtain xs' where
      "take_first m ys = Some (fst x, xs')" "filter P xs' = rest"
      "filter (\<lambda>y. \<not> P y) xs' = filter (\<lambda>y. \<not> P y) ys" by auto
    with ne False show ?thesis by simp
  qed
qed

lemma sorted_wrt_hd_max:
  assumes "sorted_wrt (\<lambda>x y. snd x \<ge> snd y) (x # rest)" and "y \<in> set (x # rest)"
  shows "snd y \<le> (snd x :: int)"
  using assms by auto

lemma highest_priorityI:
  assumes "x \<in> set xs" and "\<forall>y\<in>set xs. snd y \<le> snd x"
  shows "highest_priority xs = snd x"
  unfolding highest_priority_def using assms
  by (intro Max_eqI) auto


lemma documented_pop_side:
  assumes f: "filter P xs = x # rest"
    and le: "\<forall>y\<in>set xs. snd y \<le> snd x"
    and eq: "\<forall>y\<in>set xs. snd y = snd x \<longrightarrow> P y"
  shows "\<exists>xs'. documented_pop xs = Some (fst x, xs') \<and> filter P xs' = rest \<and>
           filter (\<lambda>y. \<not> P y) xs' = filter (\<lambda>y. \<not> P y) xs"
proof -
  have "x \<in> set (filter P xs)" using f by simp
  then have xin: "x \<in> set xs" by simp
  then have ne: "xs \<noteq> []" by auto
  have hp: "highest_priority xs = snd x" using xin le by (rule highest_priorityI)
  from take_first_filter[OF f refl eq] ne hp show ?thesis
    by (simp add: documented_pop_def)
qed

lemma sorted_wrt_filter_rest:
  "sorted_wrt R xs \<Longrightarrow> xs = x # rest \<Longrightarrow> sorted_wrt R rest"
  by auto

lemma Pop_holds:
  assumes "queue_holds q xs" and "xs \<noteq> []"
  shows "\<exists>e q' xs'. Pop q = Some (e, q') \<and> documented_pop xs = Some (e, xs') \<and> queue_holds q' xs'"
proof -
  let ?ge = "\<lambda>x y. snd x \<ge> (snd y :: int)"
  from assms(1) have o: "odd_queue q = filter odd_priority xs"
    and e: "even_queue q = filter (\<lambda>x. \<not> odd_priority x) xs"
    and so: "sorted_wrt ?ge (odd_queue q)" and se: "sorted_wrt ?ge (even_queue q)"
    by (auto simp: queue_holds_def)
  have split: "y \<in> set (odd_queue q) \<or> y \<in> set (even_queue q)" if "y \<in> set xs" for y
    using that o e by auto
  have in_odd: "odd (snd y)" if "y \<in> set (odd_queue q)" for y
    using that o by (auto simp: odd_priority_iff)
  have in_even: "even (snd y)" if "y \<in> set (even_queue q)" for y
    using that e by (auto simp: odd_priority_iff)
  have pop_odd: ?thesis
    if ho: "odd_queue q = x # rest" and mx: "\<forall>y\<in>set (even_queue q). snd y \<le> snd x"
      and P: "Pop q = map_option (\<lambda>(e, r). (e, q\<lparr>odd_queue := r\<rparr>)) (PopBack (odd_queue q))"
    for x rest
  proof -
    have ox: "odd (snd x)" using in_odd ho by simp
    have all: "\<forall>y\<in>set xs. snd y \<le> snd x"
    proof
      fix y assume "y \<in> set xs"
      with split consider "y \<in> set (odd_queue q)" | "y \<in> set (even_queue q)" by blast
      then show "snd y \<le> snd x"
      proof cases
        case 1 with so ho show ?thesis by auto
      next
        case 2 with mx show ?thesis by auto
      qed
    qed
    have eq: "\<forall>y\<in>set xs. snd y = snd x \<longrightarrow> odd_priority y"
      using ox by (simp add: odd_priority_iff)
    from documented_pop_side[of odd_priority xs x rest, OF _ all eq] ho o
    obtain xs' where d: "documented_pop xs = Some (fst x, xs')"
      and r: "filter odd_priority xs' = rest"
      and k: "filter (\<lambda>y. \<not> odd_priority y) xs' = filter (\<lambda>y. \<not> odd_priority y) xs"
      by auto
    have "Pop q = Some (fst x, q\<lparr>odd_queue := rest\<rparr>)"
      using P ho by (simp add: PopBack_def)
    moreover have "queue_holds (q\<lparr>odd_queue := rest\<rparr>) xs'"
      using r k e so se ho by (auto simp: queue_holds_def)
    ultimately show ?thesis using d by blast
  qed
  have pop_even: ?thesis
    if he: "even_queue q = x # rest" and mx: "\<forall>y\<in>set (odd_queue q). snd y \<le> snd x"
      and P: "Pop q = map_option (\<lambda>(e, r). (e, q\<lparr>even_queue := r\<rparr>)) (PopBack (even_queue q))"
    for x rest
  proof -
    have ex: "even (snd x)" using in_even he by simp
    have all: "\<forall>y\<in>set xs. snd y \<le> snd x"
    proof
      fix y assume "y \<in> set xs"
      with split consider "y \<in> set (odd_queue q)" | "y \<in> set (even_queue q)" by blast
      then show "snd y \<le> snd x"
      proof cases
        case 1 with mx show ?thesis by auto
      next
        case 2 with se he show ?thesis by auto
      qed
    qed
    have eq: "\<forall>y\<in>set xs. snd y = snd x \<longrightarrow> \<not> odd_priority y"
      using ex by (simp add: odd_priority_iff)
    from documented_pop_side[of "\<lambda>y. \<not> odd_priority y" xs x rest, OF _ all eq] he e
    obtain xs' where d: "documented_pop xs = Some (fst x, xs')"
      and r: "filter (\<lambda>y. \<not> odd_priority y) xs' = rest"
      and k: "filter odd_priority xs' = filter odd_priority xs"
      by auto
    have "Pop q = Some (fst x, q\<lparr>even_queue := rest\<rparr>)"
      using P he by (simp add: PopBack_def)
    moreover have "queue_holds (q\<lparr>even_queue := rest\<rparr>) xs'"
      using r k o so se he by (auto simp: queue_holds_def)
    ultimately show ?thesis using d by blast
  qed
  show ?thesis
  proof (cases "even_queue q")
    case Nil
    have "filter (\<lambda>x. \<not> odd_priority x) xs = []" using Nil e by simp
    then have "\<forall>y\<in>set xs. odd_priority y" by (simp add: filter_empty_conv)
    then have "odd_queue q = xs" using o by simp
    with assms(2) obtain x rest where ho: "odd_queue q = x # rest"
      by (cases xs) auto
    show ?thesis
      by (rule pop_odd[OF ho]) (simp_all add: Nil Pop_def)
  next
    case (Cons x rest)
    note he = this
    show ?thesis
    proof (cases "odd_queue q")
      case Nil
      show ?thesis
        by (rule pop_even[OF he]) (simp_all add: Nil he Pop_def)
    next
      case (Cons z zs)
      note ho = this
      show ?thesis
      proof (cases "snd z > snd x")
        case True
        have "\<forall>y\<in>set (even_queue q). snd y \<le> snd z"
          using se he True by fastforce
        then show ?thesis
          by (rule pop_odd[OF ho]) (simp add: he ho True Pop_def)
      next
        case False
        have "\<forall>y\<in>set (odd_queue q). snd y \<le> snd x"
          using so ho False by fastforce
        then show ?thesis
          by (rule pop_even[OF he]) (simp add: he ho False Pop_def)
      qed
    qed
  qed
qed

lemma run_queue_documented:
  "queue_holds q xs \<Longrightarrow> restricted_pushes ops xs \<Longrightarrow> run_queue ops q = run_documented ops xs"
proof (induction ops xs arbitrary: q rule: restricted_pushes.induct)
  case (1 xs)
  then show ?case by simp
next
  case (2 e p ops xs)
  then show ?case by (simp add: Push_holds)
next
  case (3 ops xs)
  from "3.prems" obtain e xs' where d: "documented_pop xs = Some (e, xs')"
    by (auto split: option.splits)
  then have "xs \<noteq> []" by (auto simp: documented_pop_def)
  from Pop_holds[OF "3.prems"(1) this] d obtain q' where
    "Pop q = Some (e, q')" "queue_holds q' xs'" by auto
  with "3.IH"[of "(e, xs')" e xs' q'] d "3.prems" show ?case by simp
qed


text \<open>
  What a documented pop returns: the pair it takes has the highest stored priority, and
  no pair pushed after it has that priority.
\<close>

lemma take_first_most_recent:
  "take_first m xs = Some (e, xs') \<Longrightarrow>
     \<exists>ys zs. xs = ys @ (e, m) # zs \<and> xs' = ys @ zs \<and> (\<forall>y\<in>set ys. snd y \<noteq> m)"
proof (induction xs arbitrary: xs')
  case Nil
  then show ?case by simp
next
  case (Cons x xs)
  show ?case
  proof (cases "snd x = m")
    case True
    with Cons.prems have "x = (e, m)" "xs' = xs" by (auto simp: prod_eq_iff)
    then have "x # xs = [] @ (e, m) # xs \<and> xs' = [] @ xs \<and> (\<forall>y\<in>set []. snd y \<noteq> m)" by simp
    then show ?thesis by blast
  next
    case False
    with Cons.prems obtain r where r: "take_first m xs = Some (e, r)" "xs' = x # r" by auto
    from Cons.IH[OF r(1)] obtain ys zs where
      "xs = ys @ (e, m) # zs" "r = ys @ zs" "\<forall>y\<in>set ys. snd y \<noteq> m" by blast
    with False r(2) have "x # xs = (x # ys) @ (e, m) # zs \<and> xs' = (x # ys) @ zs \<and>
        (\<forall>y\<in>set (x # ys). snd y \<noteq> m)" by simp
    then show ?thesis by blast
  qed
qed

text \<open>
  C5. Along every sequence of pushes and pops on a fresh queue in which every push has a
  priority of at least the highest stored priority minus one (and every pop finds the
  queue non-empty), each pop of the two-vector queue returns the element the
  documentation promises: the most recently pushed one among those of highest priority.
\<close>

theorem restricted_push_queue_pops_documented:
  "restricted_pushes ops [] \<Longrightarrow> run_queue ops empty_queue = run_documented ops []"
  by (rule run_queue_documented) (simp_all add: queue_holds_def empty_queue_def)

theorem restricted_push_queue_pops_documented_witness:
  "restricted_pushes [DoPush (10::nat) 3, DoPush 20 2, DoPush 30 3, DoPop, DoPush 40 2, DoPop, DoPop, DoPop] [] \<and>
   run_queue [DoPush (10::nat) 3, DoPush 20 2, DoPush 30 3, DoPop, DoPush 40 2, DoPop, DoPop, DoPop] empty_queue
     = [Some 30, Some 10, Some 40, Some 20]"
proof -
  have r: "restricted_pushes [DoPush (10::nat) 3, DoPush 20 2, DoPush 30 3, DoPop, DoPush 40 2, DoPop, DoPop, DoPop] []"
    by (simp add: documented_pop_def highest_priority_def)
  have "run_documented [DoPush (10::nat) 3, DoPush 20 2, DoPush 30 3, DoPop, DoPush 40 2, DoPop, DoPop, DoPop] []
          = [Some 30, Some 10, Some 40, Some 20]"
    by (simp add: documented_pop_def highest_priority_def)
  with r restricted_push_queue_pops_documented[OF r] show ?thesis by simp
qed

section \<open>SetArcCapacity\<close>

text \<open>
  C6. For a direct arc \<open>a\<close> (whose opposite is another arc) and a capacity
  \<open>new_cap \<ge> 0\<close>: when \<open>new_cap\<close> is the current capacity of \<open>a\<close>,
  \<^verbatim>\<open>SetArcCapacity\<close> leaves the solver as it is, status included; otherwise it sets
  the status to \<open>NOT_SOLVED\<close> and the capacity of \<open>a\<close> to \<open>new_cap\<close>, keeps the
  flow on \<open>a\<close> when the reduction is at most the free capacity
  \<open>residual_arc_capacity a\<close>, and otherwise resets the arc to zero flow.
\<close>

theorem SetArcCapacity_effect:
  assumes "IsArcDirect g a" and "0 \<le> new_cap" and "Opposite g a \<noteq> a"
  shows "(new_cap = Capacity g st a \<longrightarrow> SetArcCapacity g a new_cap st = st) \<and>
         (new_cap \<noteq> Capacity g st a \<longrightarrow>
            status (SetArcCapacity g a new_cap st) = NOT_SOLVED \<and>
            Capacity g (SetArcCapacity g a new_cap st) a = new_cap \<and>
            (Capacity g st a - new_cap \<le> residual_arc_capacity st a \<longrightarrow>
               Flow g (SetArcCapacity g a new_cap st) a = Flow g st a) \<and>
            (\<not> Capacity g st a - new_cap \<le> residual_arc_capacity st a \<longrightarrow>
               residual_arc_capacity (SetArcCapacity g a new_cap st) a = new_cap \<and>
               residual_arc_capacity (SetArcCapacity g a new_cap st) (Opposite g a) = 0 \<and>
               Flow g (SetArcCapacity g a new_cap st) a = 0))"
  using assms
  by (auto simp: SetArcCapacity_def Capacity_def Flow_def SetCapacityAndClearFlow_def Let_def)

theorem SetArcCapacity_effect_witness:
  "IsArcDirect two_node_graph 0 \<and> Opposite two_node_graph 0 \<noteq> 0 \<and>
   Capacity two_node_graph loaded_arc 0 = 7 \<and> Flow two_node_graph loaded_arc 0 = 5 \<and>
   status loaded_arc = OPTIMAL \<and>
   SetArcCapacity two_node_graph 0 7 loaded_arc = loaded_arc \<and>
   status (SetArcCapacity two_node_graph 0 6 loaded_arc) = NOT_SOLVED \<and>
   Capacity two_node_graph (SetArcCapacity two_node_graph 0 6 loaded_arc) 0 = 6 \<and>
   Flow two_node_graph (SetArcCapacity two_node_graph 0 6 loaded_arc) 0 = 5 \<and>
   status (SetArcCapacity two_node_graph 0 3 loaded_arc) = NOT_SOLVED \<and>
   Capacity two_node_graph (SetArcCapacity two_node_graph 0 3 loaded_arc) 0 = 3 \<and>
   Flow two_node_graph (SetArcCapacity two_node_graph 0 3 loaded_arc) 0 = 0"
proof -
  have h: "IsArcDirect two_node_graph 0" "Opposite two_node_graph 0 \<noteq> 0"
    by (simp_all add: IsArcDirect_def Opposite_def two_node_graph_def list_graph_def)
  have r: "residual_arc_capacity loaded_arc 0 = 2" "residual_arc_capacity loaded_arc (Opposite two_node_graph 0) = 5"
    "status loaded_arc = OPTIMAL"
    by (simp_all add: loaded_arc_def PushFlow_def FlowQuantity_store_def SetArcCapacity_def
        Capacity_def IsArcDirect_def Opposite_def two_node_graph_def list_graph_def
        GenericMaxFlow_new_def Let_def)
  have c: "Capacity two_node_graph loaded_arc 0 = 7" "Flow two_node_graph loaded_arc 0 = 5"
    using h r by (simp_all add: Capacity_def Flow_def)
  from SetArcCapacity_effect[OF h(1) _ h(2), of 7 loaded_arc]
    SetArcCapacity_effect[OF h(1) _ h(2), of 6 loaded_arc]
    SetArcCapacity_effect[OF h(1) _ h(2), of 3 loaded_arc] h r c
  show ?thesis by simp
qed

section \<open>The status of a fresh solver\<close>

text \<open>
  C7. The documentation of \<^verbatim>\<open>status()\<close> promises \<open>NOT_SOLVED\<close> before the first
  \<^verbatim>\<open>Solve()\<close>, but the constructor never assigns \<^verbatim>\<open>status_\<close>: a fresh solver
  reports whatever value the member's storage held.
\<close>

theorem constructor_leaves_status_indeterminate:
  "status (GenericMaxFlow_new g source0 sink0 indeterminate) = indeterminate"
  by (simp add: GenericMaxFlow_new_def)

section \<open>Cuts when the start node is outside the graph\<close>

text \<open>
  C10. When the source is not a node of the graph, \<^verbatim>\<open>GetSourceSideMinCut\<close> returns
  the one-element list holding the source and leaves the solver as it is, whatever its
  state; likewise \<^verbatim>\<open>GetSinkSideMinCut\<close> for a sink outside the graph.
\<close>

theorem min_cut_of_start_outside_graph:
  "(num_nodes g \<le> source st \<longrightarrow> GetSourceSideMinCut g st = Some ([source st], st)) \<and>
   (num_nodes g \<le> sink st \<longrightarrow> GetSinkSideMinCut g st = Some ([sink st], st))"
  by (simp add: GetSourceSideMinCut_def GetSinkSideMinCut_def ComputeReachableNodes_def)

theorem min_cut_of_start_outside_graph_witness:
  "num_nodes two_node_graph \<le> source (GenericMaxFlow_new two_node_graph 5 6 NOT_SOLVED) \<and>
   GetSourceSideMinCut two_node_graph (GenericMaxFlow_new two_node_graph 5 6 NOT_SOLVED)
     = Some ([5], GenericMaxFlow_new two_node_graph 5 6 NOT_SOLVED) \<and>
   num_nodes two_node_graph \<le> sink (GenericMaxFlow_new two_node_graph 5 6 NOT_SOLVED) \<and>
   GetSinkSideMinCut two_node_graph (GenericMaxFlow_new two_node_graph 5 6 NOT_SOLVED)
     = Some ([6], GenericMaxFlow_new two_node_graph 5 6 NOT_SOLVED)"
proof -
  have h: "num_nodes two_node_graph \<le> source (GenericMaxFlow_new two_node_graph 5 6 NOT_SOLVED)"
    "num_nodes two_node_graph \<le> sink (GenericMaxFlow_new two_node_graph 5 6 NOT_SOLVED)"
    by (simp_all add: two_node_graph_def list_graph_def GenericMaxFlow_new_def)
  have s: "source (GenericMaxFlow_new two_node_graph 5 6 NOT_SOLVED) = 5"
    "sink (GenericMaxFlow_new two_node_graph 5 6 NOT_SOLVED) = 6"
    by (simp_all add: GenericMaxFlow_new_def)
  from min_cut_of_start_outside_graph[of two_node_graph "GenericMaxFlow_new two_node_graph 5 6 NOT_SOLVED"] h s
  show ?thesis by simp
qed

section \<open>Facts about well-formed graphs\<close>

lemma graph_ok_direct:
  assumes "graph_ok g" and "a \<in> set (direct_arcs g)"
  shows "IsArcDirect g a" "Opposite g a < 0" "0 \<le> a" "Opposite g a \<noteq> a"
    "Head g a < num_nodes g" "Tail g a < num_nodes g"
    "Head g (Opposite g a) = Tail g a" "Tail g (Opposite g a) = Head g a"
proof -
  from assms(2) show a0: "0 \<le> a" by (auto simp: direct_arcs_def)
  from assms show "Opposite g a < 0" by (simp add: graph_ok_def)
  with a0 show "Opposite g a \<noteq> a" by simp
  from assms a0 show "IsArcDirect g a" by (simp add: graph_ok_def IsArcDirect_def)
  from assms show "Head g a < num_nodes g" "Tail g a < num_nodes g"
    "Head g (Opposite g a) = Tail g a" "Tail g (Opposite g a) = Head g a"
    by (simp_all add: graph_ok_def)
qed

lemma graph_ok_Opposite [simp]: "graph_ok g \<Longrightarrow> Opposite g (Opposite g a) = a"
  by (simp add: graph_ok_def)

lemma graph_ok_Opposite_inj: "graph_ok g \<Longrightarrow> Opposite g a = Opposite g b \<Longrightarrow> a = b"
  by (metis graph_ok_Opposite)

lemma opposite_index_differs: "- a - 1 \<noteq> (a::int)"
  by presburger

lemma graph_ok_reserved_graph: "graph_ok reserved_graph"
  by (simp add: graph_ok_def reserved_graph_def list_graph_def direct_arcs_def all_arcs_def
      Opposite_def upt_rec opposite_index_differs)

section \<open>InitializePreflow and a source or sink outside the graph\<close>

lemma clear_flows_residual:
  assumes ok: "graph_ok g" and sub: "set arcs \<subseteq> set (direct_arcs g)" and d: "distinct arcs"
  shows "residual_arc_capacity (clear_flows g arcs st) =
           (\<lambda>b. if b \<in> set arcs then residual_arc_capacity st b + residual_arc_capacity st (Opposite g b)
                else if Opposite g b \<in> set arcs then 0
                else residual_arc_capacity st b)"
  using sub d
proof (induction arcs arbitrary: st)
  case Nil
  then show ?case by (simp add: clear_flows_def)
next
  case (Cons a arcs)
  let ?st = "SetCapacityAndClearFlow g a (Capacity g st a) st"
  have a: "a \<in> set (direct_arcs g)" using Cons.prems by simp
  note A = graph_ok_direct[OF ok a]
  have IH: "residual_arc_capacity (clear_flows g arcs ?st) =
           (\<lambda>b. if b \<in> set arcs then residual_arc_capacity ?st b + residual_arc_capacity ?st (Opposite g b)
                else if Opposite g b \<in> set arcs then 0
                else residual_arc_capacity ?st b)"
    using Cons.IH[of ?st] Cons.prems by simp
  have step: "clear_flows g (a # arcs) st = clear_flows g arcs ?st"
    by (simp add: clear_flows_def)
  have r: "residual_arc_capacity ?st =
      ((residual_arc_capacity st)(a := residual_arc_capacity st a + residual_arc_capacity st (Opposite g a)))
        (Opposite g a := 0)"
    using A(1) by (simp add: SetCapacityAndClearFlow_def Capacity_def)
  show ?case
  proof
    fix b
    have nb: "Opposite g b \<noteq> b" if "b \<in> set arcs" for b
      using graph_ok_direct(4)[OF ok] Cons.prems that by auto
    consider "b = a" | "b = Opposite g a" | "b \<noteq> a" "b \<noteq> Opposite g a" by blast
    then show "residual_arc_capacity (clear_flows g (a # arcs) st) b =
      (if b \<in> set (a # arcs) then residual_arc_capacity st b + residual_arc_capacity st (Opposite g b)
       else if Opposite g b \<in> set (a # arcs) then 0 else residual_arc_capacity st b)"
    proof cases
      case 1
      have "Opposite g a \<notin> set arcs"
        using A(2) Cons.prems graph_ok_direct(3)[OF ok] by force
      with 1 A Cons.prems show ?thesis unfolding step IH r by simp
    next
      case 2
      have "b \<notin> set arcs" using 2 A(2) Cons.prems graph_ok_direct(3)[OF ok] by force
      moreover have "b \<noteq> a" using 2 A(4) by simp
      moreover have "Opposite g b = a" using 2 ok by simp
      ultimately show ?thesis using 2 Cons.prems unfolding step IH r by simp
    next
      case 3
      have 4: "Opposite g b \<noteq> Opposite g a" using 3 graph_ok_Opposite_inj[OF ok] by blast
      have 5: "Opposite g b \<noteq> a" using 3 ok by (metis graph_ok_Opposite)
      from 3 4 5 show ?thesis unfolding step IH r by simp
    qed
  qed
qed


lemma clear_flows_other [simp]:
  "node_excess (clear_flows g arcs st) = node_excess st"
  "node_potential (clear_flows g arcs st) = node_potential st"
  "first_admissible_arc (clear_flows g arcs st) = first_admissible_arc st"
  "active_node_by_height (clear_flows g arcs st) = active_node_by_height st"
  "source (clear_flows g arcs st) = source st"
  "sink (clear_flows g arcs st) = sink st"
  "status (clear_flows g arcs st) = status st"
  by (induction arcs arbitrary: st; simp add: clear_flows_def SetCapacityAndClearFlow_def)+

lemma InitializePreflow_eq:
  "InitializePreflow g st =
     (if NodeReservation g \<le> source st then Inl OutOfBounds
      else Inr ((clear_flows g (direct_arcs g) st)
        \<lparr>node_excess := (\<lambda>v. if v < NodeReservation g then 0 else node_excess st v),
         node_potential := (\<lambda>v. if v < NodeReservation g then 0 else node_potential st v)
                              (source st := int (num_nodes g)),
         first_admissible_arc :=
           (\<lambda>v. if v < NodeReservation g then kNilArc g else first_admissible_arc st v)\<rparr>))"
proof -
  let ?F = "\<lambda>arc s. SetCapacityAndClearFlow g arc (Capacity g s arc) s"
  have comm: "?F a (s\<lparr>node_excess := e\<rparr>) = (?F a s)\<lparr>node_excess := e\<rparr>" for a s e
    by (simp add: SetCapacityAndClearFlow_def Capacity_def)
  have c: "fold ?F arcs (s\<lparr>node_excess := e\<rparr>) = (clear_flows g arcs s)\<lparr>node_excess := e\<rparr>"
    for arcs s e
  proof (induction arcs arbitrary: s)
    case Nil
    show ?case by (simp add: clear_flows_def)
  next
    case (Cons a arcs)
    have "fold ?F (a # arcs) (s\<lparr>node_excess := e\<rparr>) = fold ?F arcs (?F a (s\<lparr>node_excess := e\<rparr>))"
      by simp
    also have "\<dots> = fold ?F arcs ((?F a s)\<lparr>node_excess := e\<rparr>)"
      by (simp only: comm)
    also have "\<dots> = (clear_flows g arcs (?F a s))\<lparr>node_excess := e\<rparr>"
      by (rule Cons.IH)
    also have "\<dots> = (clear_flows g (a # arcs) s)\<lparr>node_excess := e\<rparr>"
      by (simp add: clear_flows_def)
    finally show ?case .
  qed
  show ?thesis
    unfolding InitializePreflow_def Let_def c direct_arcs_def[symmetric]
    by (simp cong: if_cong)
qed

lemma InitializePreflow_flows:
  assumes ok: "graph_ok g" and "InitializePreflow g st = Inr st'" and a: "a \<in> set (all_arcs g)"
  shows "Flow g st' a = 0"
proof -
  from assms(2) have r: "residual_arc_capacity st' = residual_arc_capacity (clear_flows g (direct_arcs g) st)"
    by (auto simp: InitializePreflow_eq split: if_splits)
  have d: "distinct (direct_arcs g)" by (simp add: direct_arcs_def distinct_map inj_on_def)
  note R = clear_flows_residual[OF ok subset_refl d, of st]
  from a consider "a \<in> set (direct_arcs g)" | b where "b \<in> set (direct_arcs g)" "a = Opposite g b"
    by (auto simp: all_arcs_def)
  then show ?thesis
  proof cases
    case 1
    note A = graph_ok_direct[OF ok 1]
    have "Opposite g a \<notin> set (direct_arcs g)" using A(2) by (auto simp: direct_arcs_def)
    with 1 A ok show ?thesis by (simp add: Flow_def r R)
  next
    case 2
    note B = graph_ok_direct[OF ok 2(1)]
    have "a \<notin> set (direct_arcs g)" using B(2) 2(2) by (auto simp: direct_arcs_def)
    moreover have "\<not> IsArcDirect g a" using B(2) 2(2) by (simp add: IsArcDirect_def)
    ultimately show ?thesis using 2 ok by (simp add: Flow_def r R)
  qed
qed

text \<open>
  C8, as stated, fails: the per-node arrays have \<^verbatim>\<open>NodeReservation\<close> entries, and an
  index can be outside the graph and outside the arrays too. With the sink beyond the
  reservation \<^verbatim>\<open>Solve\<close> returns, but \<^verbatim>\<open>GetOptimalFlow\<close> reads
  \<^verbatim>\<open>node_excess_[sink_]\<close> out of bounds; with the source beyond it,
  \<^verbatim>\<open>InitializePreflow\<close> writes \<^verbatim>\<open>node_potential_[source_]\<close> out of bounds.
\<close>

theorem Solve_sink_beyond_reservation_counterexample:
  "num_nodes one_node_graph \<le> sink (GenericMaxFlow_new one_node_graph 0 1 NOT_SOLVED) \<and>
   (case Solve one_node_graph (GenericMaxFlow_new one_node_graph 0 1 NOT_SOLVED) of
      Some (Inr (ok, st')) \<Rightarrow> GetOptimalFlow one_node_graph st'
    | _ \<Rightarrow> Inr 0) = Inl OutOfBounds \<and>
   num_nodes one_node_graph \<le> source (GenericMaxFlow_new one_node_graph 1 0 NOT_SOLVED) \<and>
   Solve one_node_graph (GenericMaxFlow_new one_node_graph 1 0 NOT_SOLVED) = Some (Inl OutOfBounds)"
  by (simp add: Solve_def InitializePreflow_eq GetOptimalFlow_def one_node_graph_def
      list_graph_def GenericMaxFlow_new_def)

text \<open>
  C8, amended. On a well-formed graph, when the source or the sink is not a node of the
  graph and the source lies below the node reservation, \<^verbatim>\<open>Solve\<close> returns true with
  status \<open>OPTIMAL\<close> and the flow on every arc is zero, whatever the solver held before;
  \<^verbatim>\<open>GetOptimalFlow\<close> is 0 when the sink lies below the node reservation, and reads
  outside \<^verbatim>\<open>node_excess_\<close> otherwise.
\<close>

theorem Solve_source_or_sink_outside_graph:
  assumes "graph_ok g" and "num_nodes g \<le> source st \<or> num_nodes g \<le> sink st"
    and "source st < NodeReservation g"
  shows "\<exists>st'. Solve g st = Some (Inr (True, st')) \<and> status st' = OPTIMAL \<and>
           (\<forall>a\<in>set (all_arcs g). Flow g st' a = 0) \<and>
           GetOptimalFlow g st' = (if sink st < NodeReservation g then Inr 0 else Inl OutOfBounds)"
proof -
  from assms(3) obtain st1 where i: "InitializePreflow g (st\<lparr>status := NOT_SOLVED\<rparr>) = Inr st1"
    by (simp add: InitializePreflow_eq)
  then have f: "source st1 = source st" "sink st1 = sink st"
    "sink st < NodeReservation g \<Longrightarrow> node_excess st1 (sink st) = 0"
    using assms(3) by (auto simp: InitializePreflow_eq)
  have fl: "\<forall>a\<in>set (all_arcs g). Flow g st1 a = 0"
    using InitializePreflow_flows[OF assms(1) i] by blast
  have "Solve g st = Some (Inr (True, st1\<lparr>status := OPTIMAL\<rparr>))"
    using i f assms(2) by (auto simp: Solve_def)
  moreover have "GetOptimalFlow g (st1\<lparr>status := OPTIMAL\<rparr>)
                 = (if sink st < NodeReservation g then Inr 0 else Inl OutOfBounds)"
    using f by (simp add: GetOptimalFlow_def)
  moreover have "\<forall>a\<in>set (all_arcs g). Flow g (st1\<lparr>status := OPTIMAL\<rparr>) a = 0"
    using fl by (auto simp: Flow_def split: if_splits)
  ultimately show ?thesis by simp
qed

lemma stale_solver_fields:
  "source (stale_solver s t) = s" "sink (stale_solver s t) = t"
  "Flow reserved_graph (stale_solver s t) 0 = 3"
  "node_excess (stale_solver s t) 0 = - 3"
  "node_excess (stale_solver s t) 1 = 3"
  "node_excess (stale_solver s t) 3 = 9"
  by (simp_all add: stale_solver_def PushFlow_def FlowQuantity_store_def with_capacities_def
      SetArcCapacity_def SetCapacityAndClearFlow_def Capacity_def Flow_def IsArcDirect_def
      Opposite_def reserved_graph_def list_graph_def GenericMaxFlow_new_def Let_def)

lemma graph_ok_one_node_graph: "graph_ok one_node_graph"
  by (simp add: graph_ok_def one_node_graph_def list_graph_def direct_arcs_def all_arcs_def
      Opposite_def upt_rec opposite_index_differs)

theorem Solve_source_or_sink_outside_graph_witness:
  "graph_ok reserved_graph \<and> num_nodes reserved_graph \<le> sink (stale_solver 0 3) \<and>
   source (stale_solver 0 3) < NodeReservation reserved_graph \<and>
   Flow reserved_graph (stale_solver 0 3) 0 = 3 \<and> node_excess (stale_solver 0 3) 3 = 9 \<and>
   (case Solve reserved_graph (stale_solver 0 3) of
      Some (Inr (ok, st')) \<Rightarrow> ok \<and> status st' = OPTIMAL \<and> GetOptimalFlow reserved_graph st' = Inr 0 \<and>
         Flow reserved_graph st' 0 = 0 \<and> Flow reserved_graph st' (- 1) = 0
    | _ \<Rightarrow> False) \<and>
   num_nodes reserved_graph \<le> source (stale_solver 2 1) \<and>
   source (stale_solver 2 1) < NodeReservation reserved_graph \<and>
   Flow reserved_graph (stale_solver 2 1) 0 = 3 \<and> node_excess (stale_solver 2 1) 1 = 3 \<and>
   (case Solve reserved_graph (stale_solver 2 1) of
      Some (Inr (ok, st')) \<Rightarrow> ok \<and> status st' = OPTIMAL \<and> GetOptimalFlow reserved_graph st' = Inr 0 \<and>
         Flow reserved_graph st' 0 = 0 \<and> Flow reserved_graph st' (- 1) = 0
    | _ \<Rightarrow> False) \<and>
   graph_ok one_node_graph \<and>
   num_nodes one_node_graph \<le> sink (GenericMaxFlow_new one_node_graph 0 1 NOT_SOLVED) \<and>
   source (GenericMaxFlow_new one_node_graph 0 1 NOT_SOLVED) < NodeReservation one_node_graph \<and>
   (case Solve one_node_graph (GenericMaxFlow_new one_node_graph 0 1 NOT_SOLVED) of
      Some (Inr (ok, st')) \<Rightarrow> ok \<and> status st' = OPTIMAL \<and>
         GetOptimalFlow one_node_graph st' = Inl OutOfBounds
    | _ \<Rightarrow> False)"
proof -
  let ?new = "GenericMaxFlow_new one_node_graph 0 1 NOT_SOLVED"
  have n: "num_nodes reserved_graph = 2" "NodeReservation reserved_graph = 4"
    "all_arcs reserved_graph = [0, - 1]"
    by (simp_all add: reserved_graph_def list_graph_def all_arcs_def direct_arcs_def Opposite_def)
  have m: "num_nodes one_node_graph = 1" "NodeReservation one_node_graph = 1"
    "source ?new = 0" "sink ?new = 1"
    by (simp_all add: one_node_graph_def list_graph_def GenericMaxFlow_new_def)
  from Solve_source_or_sink_outside_graph[OF graph_ok_reserved_graph, of "stale_solver 0 3"]
    stale_solver_fields n
  obtain st1 where 1: "Solve reserved_graph (stale_solver 0 3) = Some (Inr (True, st1))"
    "status st1 = OPTIMAL" "GetOptimalFlow reserved_graph st1 = Inr 0"
    "\<forall>a\<in>set [0, - 1]. Flow reserved_graph st1 a = 0"
    by auto
  from Solve_source_or_sink_outside_graph[OF graph_ok_reserved_graph, of "stale_solver 2 1"]
    stale_solver_fields n
  obtain st2 where 2: "Solve reserved_graph (stale_solver 2 1) = Some (Inr (True, st2))"
    "status st2 = OPTIMAL" "GetOptimalFlow reserved_graph st2 = Inr 0"
    "\<forall>a\<in>set [0, - 1]. Flow reserved_graph st2 a = 0"
    by auto
  from Solve_source_or_sink_outside_graph[OF graph_ok_one_node_graph, of ?new] m
  obtain st3 where 3: "Solve one_node_graph ?new = Some (Inr (True, st3))"
    "status st3 = OPTIMAL" "GetOptimalFlow one_node_graph st3 = Inl OutOfBounds"
    by auto
  from 1 2 3 graph_ok_reserved_graph graph_ok_one_node_graph stale_solver_fields n m
  show ?thesis by simp
qed

section \<open>Pushes keep the sum of each arc pair\<close>

lemmas dfs_loop_induct = dfs_loop.raw_induct[rotated 1, consumes 1, case_names step]
lemmas augmenting_search_induct = augmenting_search.raw_induct[rotated 1, consumes 1, case_names step]
lemmas reachable_bfs_induct = reachable_bfs.raw_induct[rotated 1, consumes 1, case_names step]

text \<open>Facts about 64-bit stores.\<close>

lemma FlowQuantity_store_mod:
  "FlowQuantity_store x mod 18446744073709551616 = x mod 18446744073709551616"
  unfolding FlowQuantity_store_def by (simp add: mod_diff_left_eq)

lemma FlowQuantity_store_eq_iff:
  "FlowQuantity_store x = FlowQuantity_store y \<longleftrightarrow>
     x mod 18446744073709551616 = y mod 18446744073709551616"
proof
  assume "FlowQuantity_store x = FlowQuantity_store y"
  then have "FlowQuantity_store x mod 18446744073709551616 = FlowQuantity_store y mod 18446744073709551616"
    by simp
  then show "x mod 18446744073709551616 = y mod 18446744073709551616"
    by (simp only: FlowQuantity_store_mod)
next
  assume "x mod 18446744073709551616 = y mod 18446744073709551616"
  then have "(x + 9223372036854775808) mod 18446744073709551616
           = (y + 9223372036854775808) mod 18446744073709551616"
    by (rule mod_add_cong) simp
  then show "FlowQuantity_store x = FlowQuantity_store y"
    by (simp add: FlowQuantity_store_def)
qed

lemma FlowQuantity_store_in_range: "FlowQuantity_in_range (FlowQuantity_store x)"
proof -
  have "0 \<le> (x + 9223372036854775808) mod (18446744073709551616::int)"
    "(x + 9223372036854775808) mod (18446744073709551616::int) < 18446744073709551616"
    by simp_all
  then show ?thesis
    unfolding FlowQuantity_store_def FlowQuantity_in_range_def by linarith
qed

lemma FlowQuantity_store_id: "FlowQuantity_in_range x \<Longrightarrow> FlowQuantity_store x = x"
  unfolding FlowQuantity_store_def FlowQuantity_in_range_def by simp


text \<open>
  The residual capacity of an arc plus that of its opposite, as a 64-bit sum: the value
  that \<^verbatim>\<open>Capacity()\<close> computes for a direct arc.
\<close>

definition pair_sum :: "Graph \<Rightarrow> GenericMaxFlow \<Rightarrow> int \<Rightarrow> int" where
  "pair_sum g st b =
     FlowQuantity_store (residual_arc_capacity st b + residual_arc_capacity st (Opposite g b))"


lemma pair_sum_update [simp]:
  "pair_sum g (st\<lparr>node_excess := e\<rparr>) = pair_sum g st"
  "pair_sum g (st\<lparr>node_potential := p\<rparr>) = pair_sum g st"
  "pair_sum g (st\<lparr>first_admissible_arc := f\<rparr>) = pair_sum g st"
  "pair_sum g (st\<lparr>active_node_by_height := q\<rparr>) = pair_sum g st"
  "pair_sum g (st\<lparr>status := u\<rparr>) = pair_sum g st"
  "pair_sum g (st\<lparr>node_in_bfs_queue := m\<rparr>) = pair_sum g st"
  "pair_sum g (st\<lparr>bfs_queue := b\<rparr>) = pair_sum g st"
  by (simp_all add: pair_sum_def fun_eq_iff)
















lemma pair_sum_solver_update [simp]:
  "pair_sum g (solver (d\<lparr>visited := x\<rparr>)) = pair_sum g (solver d)"
  "pair_sum g (solver (d\<lparr>stored := y\<rparr>)) = pair_sum g (solver d)"
  "pair_sum g (solver (d\<lparr>arc_stack := z\<rparr>)) = pair_sum g (solver d)"
  "pair_sum g (solver (d\<lparr>index_branch := w\<rparr>)) = pair_sum g (solver d)"
  "pair_sum g (solver (d\<lparr>reverse_topological_order := r\<rparr>)) = pair_sum g (solver d)"
  by simp_all





















section \<open>Cancelling a cycle of flow keeps every excess\<close>

text \<open>
  The arcs whose flow \<^verbatim>\<open>PushFlowExcessBackToSource\<close> pushes back when it cancels a
  cycle, in the order of the pushes: the arc that closes the cycle, then the arcs of the
  branch from its end down to \<^verbatim>\<open>cycle_begin\<close>. Each arc of such a list ends where
  the one before it starts (\<open>chain_back\<close>), and \<open>push_along\<close> is the effect of the
  pushes on the solver.
\<close>

fun chain_back :: "Graph \<Rightarrow> int list \<Rightarrow> bool" where
  "chain_back g [] = True"
| "chain_back g [x] = True"
| "chain_back g (x # y # r) = (Head g y = Tail g x \<and> chain_back g (y # r))"

definition push_along :: "Graph \<Rightarrow> int \<Rightarrow> int list \<Rightarrow> GenericMaxFlow \<Rightarrow> GenericMaxFlow" where
  "push_along g q arcs st = fold (\<lambda>a s. PushFlow g q (Tail g a) a s) arcs st"

text \<open>The arcs of a detected cycle, in the order in which their flow is pushed back.\<close>

definition cycle_arcs :: "dfs_state \<Rightarrow> int \<Rightarrow> nat \<Rightarrow> int list" where
  "cycle_arcs d arc cb =
     arc # map (\<lambda>i. arc_stack d ! (index_branch d ! i)) (rev [cb..<length (index_branch d)])"

text \<open>
  The arcs of the branch form a path that starts at \<open>src\<close>: the arc at position 0 of
  \<^verbatim>\<open>index_branch\<close> leaves \<open>src\<close>, and each later one leaves the head of the one before.
  An arc closes a cycle when it leaves the node at the end of that path and its head is
  \<open>src\<close> or the head of an arc of the branch.
\<close>

definition branch_is_path :: "Graph \<Rightarrow> nat \<Rightarrow> dfs_state \<Rightarrow> bool" where
  "branch_is_path g src d =
     (\<forall>i<length (index_branch d).
        index_branch d ! i < length (arc_stack d) \<and>
        Tail g (arc_stack d ! (index_branch d ! i)) =
          (if i = 0 then src else Head g (arc_stack d ! (index_branch d ! (i - 1)))))"

definition closes_cycle :: "Graph \<Rightarrow> nat \<Rightarrow> dfs_state \<Rightarrow> int \<Rightarrow> bool" where
  "closes_cycle g src d arc =
     (index_branch d \<noteq> [] \<and>
      Tail g arc = Head g (arc_stack d ! last (index_branch d)) \<and>
      (Head g arc = src \<or>
       (\<exists>i<length (index_branch d). Head g (arc_stack d ! (index_branch d ! i)) = Head g arc)))"

text \<open>
  What the search keeps true of its vectors. The arc at position \<open>j\<close> of
  \<^verbatim>\<open>arc_stack\<close> leaves its \<open>owner\<close>: the head of the last arc of the branch below \<open>j\<close>,
  or \<open>src\<close> when there is none. The positions in \<^verbatim>\<open>index_branch\<close> increase, the heads
  of the arcs of the branch are distinct, visited and not stored, and every node that is
  visited and not stored is \<open>src\<close> or one of these heads.
\<close>

definition owner :: "Graph \<Rightarrow> nat \<Rightarrow> int list \<Rightarrow> nat list \<Rightarrow> nat \<Rightarrow> nat" where
  "owner g src S B j =
     (if filter (\<lambda>b. b < j) B = [] then src else Head g (S ! last (filter (\<lambda>b. b < j) B)))"

definition dfs_inv :: "Graph \<Rightarrow> nat \<Rightarrow> dfs_state \<Rightarrow> bool" where
  "dfs_inv g src d =
     (src < num_nodes g \<and>
      set (arc_stack d) \<subseteq> set (direct_arcs g) \<and>
      sorted_wrt (<) (index_branch d) \<and>
      (\<forall>b\<in>set (index_branch d). b < length (arc_stack d)) \<and>
      (\<forall>j<length (arc_stack d).
          Tail g (arc_stack d ! j) = owner g src (arc_stack d) (index_branch d) j) \<and>
      visited d src \<and>
      (\<forall>v. stored d v \<longrightarrow> visited d v) \<and>
      (\<forall>b\<in>set (index_branch d).
          visited d (Head g (arc_stack d ! b)) \<and> \<not> stored d (Head g (arc_stack d ! b)) \<and>
          Head g (arc_stack d ! b) \<noteq> src) \<and>
      inj_on (\<lambda>b. Head g (arc_stack d ! b)) (set (index_branch d)) \<and>
      (\<forall>v. visited d v \<longrightarrow> \<not> stored d v \<longrightarrow>
          v = src \<or> v \<in> (\<lambda>b. Head g (arc_stack d ! b)) ` set (index_branch d)) \<and>
      (\<forall>j<length (arc_stack d). j \<notin> set (index_branch d) \<longrightarrow>
          visited d (Head g (arc_stack d ! j)) \<longrightarrow> \<not> stored d (Head g (arc_stack d ! j)) \<longrightarrow>
          (\<exists>b\<in>set (index_branch d). j < b \<and> Head g (arc_stack d ! b) = Head g (arc_stack d ! j)) \<or>
          (Head g (arc_stack d ! j) = src \<and> (\<forall>b\<in>set (index_branch d). j < b))))"

lemma FlowQuantity_store_add_cong:
  "FlowQuantity_store x = FlowQuantity_store y \<Longrightarrow> FlowQuantity_store (x + c) = FlowQuantity_store (y + c)"
  unfolding FlowQuantity_store_eq_iff by (rule mod_add_cong) simp_all

lemma FlowQuantity_store_idem [simp]: "FlowQuantity_store (FlowQuantity_store x) = FlowQuantity_store x"
  by (simp add: FlowQuantity_store_eq_iff FlowQuantity_store_mod)

lemma FlowQuantity_store_add_left [simp]:
  "FlowQuantity_store (FlowQuantity_store x + c) = FlowQuantity_store (x + c)"
  by (rule FlowQuantity_store_add_cong) simp

lemma FlowQuantity_store_diff_left [simp]:
  "FlowQuantity_store (FlowQuantity_store x - c) = FlowQuantity_store (x - c)"
  using FlowQuantity_store_add_left[of x "- c"] by simp

lemma FlowQuantity_in_range_eq:
  "FlowQuantity_in_range x \<Longrightarrow> FlowQuantity_in_range y \<Longrightarrow>
   FlowQuantity_store x = FlowQuantity_store y \<Longrightarrow> x = y"
  by (simp add: FlowQuantity_store_id)

lemma node_excess_PushFlow:
  "FlowQuantity_store (node_excess (PushFlow g q t a st) v) =
     FlowQuantity_store (node_excess st v - (if v = t then q else 0) + (if v = Head g a then q else 0))"
  by (simp add: PushFlow_def Let_def)

lemma range_PushFlow:
  "FlowQuantity_in_range (node_excess st v) \<Longrightarrow>
   FlowQuantity_in_range (node_excess (PushFlow g q t a st) v)"
  by (simp add: PushFlow_def Let_def FlowQuantity_store_in_range)

lemma range_push_along:
  "FlowQuantity_in_range (node_excess st v) \<Longrightarrow>
   FlowQuantity_in_range (node_excess (push_along g q arcs st) v)"
  unfolding push_along_def
  by (induction arcs arbitrary: st) (simp_all add: range_PushFlow)

lemma node_excess_push_along:
  "chain_back g (l # L) \<Longrightarrow>
   FlowQuantity_store (node_excess (push_along g q (l # L) st) v) =
     FlowQuantity_store (node_excess st v + (if v = Head g l then q else 0)
                          - (if v = Tail g (last (l # L)) then q else 0))"
proof (induction L arbitrary: l st)
  case Nil
  show ?case using node_excess_PushFlow[of g q "Tail g l" l st v]
    by (simp add: push_along_def algebra_simps)
next
  case (Cons y r)
  from Cons.prems have h: "Head g y = Tail g l" and c: "chain_back g (y # r)" by simp_all
  let ?st = "PushFlow g q (Tail g l) l st"
  let ?c = "(if v = Head g y then q else 0) - (if v = Tail g (last (y # r)) then q else 0)"
  have "push_along g q (l # y # r) st = push_along g q (y # r) ?st"
    by (simp add: push_along_def)
  then have "FlowQuantity_store (node_excess (push_along g q (l # y # r) st) v)
           = FlowQuantity_store (node_excess ?st v + ?c)"
    using Cons.IH[OF c, of ?st] by (simp add: algebra_simps)
  also have "\<dots> = FlowQuantity_store
       (node_excess st v - (if v = Tail g l then q else 0) + (if v = Head g l then q else 0) + ?c)"
    by (rule FlowQuantity_store_add_cong) (rule node_excess_PushFlow)
  also have "node_excess st v - (if v = Tail g l then q else 0) + (if v = Head g l then q else 0) + ?c
           = node_excess st v + (if v = Head g l then q else 0)
                - (if v = Tail g (last (l # y # r)) then q else 0)"
    using h by simp
  finally show ?case .
qed

lemma PushFlow_frame:
  "PushFlow g q t a st =
     st\<lparr>residual_arc_capacity := residual_arc_capacity (PushFlow g q t a st),
        node_excess := node_excess (PushFlow g q t a st)\<rparr>"
  by (simp add: PushFlow_def Let_def)

lemma push_along_frame:
  "push_along g q arcs st =
     st\<lparr>residual_arc_capacity := residual_arc_capacity (push_along g q arcs st),
        node_excess := node_excess (push_along g q arcs st)\<rparr>"
proof (induction arcs arbitrary: st)
  case Nil
  show ?case by (simp add: push_along_def)
next
  case (Cons a arcs)
  have e: "push_along g q (a # arcs) st = push_along g q arcs (PushFlow g q (Tail g a) a st)"
    by (simp add: push_along_def)
  show ?case
    unfolding e
    by (subst Cons.IH[of "PushFlow g q (Tail g a) a st"], subst PushFlow_frame) simp
qed

lemma cancel_cycle_arc_fields [simp]:
  "arc_stack (cancel_cycle_arc g mf fsi i s) = arc_stack s"
  "index_branch (cancel_cycle_arc g mf fsi i s) = index_branch s"
  "stored (cancel_cycle_arc g mf fsi i s) = stored s"
  "reverse_topological_order (cancel_cycle_arc g mf fsi i s) = reverse_topological_order s"
  by (simp_all add: cancel_cycle_arc_def Let_def)

lemma cancel_fold_fields [simp]:
  "arc_stack (fold (cancel_cycle_arc g mf fsi) is s) = arc_stack s"
  "index_branch (fold (cancel_cycle_arc g mf fsi) is s) = index_branch s"
  "stored (fold (cancel_cycle_arc g mf fsi) is s) = stored s"
  "reverse_topological_order (fold (cancel_cycle_arc g mf fsi) is s) = reverse_topological_order s"
  by (induction "is" arbitrary: s; simp)+

lemma cancel_cycle_fields [simp]:
  "arc_stack (cancel_cycle g node arc cb mf fsi d) = arc_stack d"
  "index_branch (cancel_cycle g node arc cb mf fsi d) = index_branch d"
  "stored (cancel_cycle g node arc cb mf fsi d) = stored d"
  "reverse_topological_order (cancel_cycle g node arc cb mf fsi d) = reverse_topological_order d"
  by (simp_all add: cancel_cycle_def)

lemma cancel_fold_solver:
  "solver (fold (cancel_cycle_arc g mf fsi) is s) =
     push_along g (- mf) (map (\<lambda>i. arc_stack s ! (index_branch s ! i)) is) (solver s)"
proof (induction "is" arbitrary: s)
  case Nil
  show ?case by (simp add: push_along_def)
next
  case (Cons i "is")
  show ?case
    by (simp add: Cons.IH) (simp add: cancel_cycle_arc_def Let_def push_along_def)
qed

lemma cancel_fold_visited:
  "visited (fold (cancel_cycle_arc g mf fsi) is s) =
     (\<lambda>v. visited s v \<and> \<not> (\<exists>i\<in>set is. fsi \<le> i \<and> Head g (arc_stack s ! (index_branch s ! i)) = v))"
proof (induction "is" arbitrary: s)
  case Nil
  show ?case by simp
next
  case (Cons i "is")
  show ?case
    by (simp add: Cons.IH) (auto simp: cancel_cycle_arc_def Let_def fun_eq_iff)
qed

lemma cancel_cycle_solver:
  "solver (cancel_cycle g node arc cb mf fsi d) =
     push_along g (- mf) (map (\<lambda>i. arc_stack d ! (index_branch d ! i)) (rev [cb..<length (index_branch d)]))
       (PushFlow g (- mf) node arc (solver d))"
  by (simp add: cancel_cycle_def cancel_fold_solver)

lemma cancel_cycle_visited:
  "visited (cancel_cycle g node arc cb mf fsi d) =
     (\<lambda>v. visited d v \<and>
        \<not> (\<exists>i. cb \<le> i \<and> i < length (index_branch d) \<and> fsi \<le> i \<and>
               Head g (arc_stack d ! (index_branch d ! i)) = v))"
  by (auto simp: cancel_cycle_def cancel_fold_visited fun_eq_iff)

lemma cancel_cycle_frame:
  "solver (cancel_cycle g node arc cb mf fsi d) =
     (solver d)\<lparr>residual_arc_capacity := residual_arc_capacity (solver (cancel_cycle g node arc cb mf fsi d)),
               node_excess := node_excess (solver (cancel_cycle g node arc cb mf fsi d))\<rparr>"
  unfolding cancel_cycle_solver
  by (subst push_along_frame, subst PushFlow_frame) simp

lemma find_cycle_begin_le: "find_cycle_begin g S B h k \<le> k"
  by (induction k) auto

lemma find_cycle_begin_hit:
  "0 < find_cycle_begin g S B h k \<Longrightarrow> Head g (S ! (B ! (find_cycle_begin g S B h k - 1))) = h"
  by (induction k) (auto split: if_splits)

lemma find_cycle_begin_miss:
  "find_cycle_begin g S B h k \<le> i \<Longrightarrow> i < k \<Longrightarrow> Head g (S ! (B ! i)) \<noteq> h"
proof (induction k)
  case 0
  then show ?case by simp
next
  case (Suc k)
  show ?case
  proof (cases "Head g (S ! (B ! k)) \<noteq> h")
    case True
    with Suc show ?thesis by (cases "i = k") auto
  next
    case False
    with Suc.prems show ?thesis by simp
  qed
qed

lemma chain_back_Cons:
  "chain_back g (a # L) = (L = [] \<or> (Head g (hd L) = Tail g a \<and> chain_back g L))"
  by (cases L) auto

lemma chain_back_rev_upt:
  assumes "\<And>i. cb \<le> i \<Longrightarrow> Suc i < m \<Longrightarrow> Head g (f i) = Tail g (f (Suc i))"
  shows "chain_back g (map f (rev [cb..<m]))"
  using assms
proof (induction m)
  case 0
  show ?case by simp
next
  case (Suc m)
  show ?case
  proof (cases "cb \<le> m")
    case True
    have IH: "chain_back g (map f (rev [cb..<m]))" using Suc by simp
    show ?thesis
    proof (cases "cb < m")
      case T: True
      then obtain k where k: "m = Suc k" by (cases m) auto
      with T have "cb \<le> k" by simp
      then have "rev [cb..<m] = k # rev [cb..<k]" using k by simp
      moreover have "Head g (f k) = Tail g (f m)" using Suc.prems[of k] k \<open>cb \<le> k\<close> by simp
      ultimately show ?thesis using True IH by (simp add: chain_back_Cons)
    next
      case False
      with True have "cb = m" by simp
      then show ?thesis by simp
    qed
  next
    case False
    then show ?thesis by simp
  qed
qed

lemma fold_invariant:
  assumes "P s" and "\<And>x s. x \<in> set xs \<Longrightarrow> P s \<Longrightarrow> P (f x s)"
  shows "P (fold f xs s)"
  using assms by (induction xs arbitrary: s) auto

lemma path_cycle_arcs_chain:
  assumes path: "branch_is_path g src d" and cl: "closes_cycle g src d arc"
  shows "chain_back g (cycle_arcs d arc cb)"
proof -
  let ?S = "arc_stack d" and ?B = "index_branch d"
  let ?m = "length ?B"
  let ?f = "\<lambda>i. ?S ! (?B ! i)"
  from cl have ne: "?B \<noteq> []" and top: "Head g (?S ! last ?B) = Tail g arc"
    by (simp_all add: closes_cycle_def)
  have step: "Head g (?f i) = Tail g (?f (Suc i))" if "Suc i < ?m" for i
    using path that by (simp add: branch_is_path_def)
  have c: "chain_back g (map ?f (rev [cb..<?m]))"
    by (rule chain_back_rev_upt) (rule step)
  show ?thesis
  proof (cases "cb < ?m")
    case True
    then obtain k where k: "?m = Suc k" by (cases ?m) auto
    with True have "cb \<le> k" by simp
    then have r: "rev [cb..<?m] = k # rev [cb..<k]" using k by simp
    have "last ?B = ?B ! k" using ne k by (simp add: last_conv_nth)
    with top have "Head g (?f k) = Tail g arc" by simp
    with c r show ?thesis by (simp add: cycle_arcs_def chain_back_Cons)
  next
    case False
    then show ?thesis by (simp add: cycle_arcs_def)
  qed
qed

lemma path_cycle_arcs_last_tail:
  assumes path: "branch_is_path g src d" and cl: "closes_cycle g src d arc"
    and cb: "cb = find_cycle_begin g (arc_stack d) (index_branch d) (Head g arc) (length (index_branch d))"
  shows "Tail g (last (cycle_arcs d arc cb)) = Head g arc"
proof -
  let ?S = "arc_stack d" and ?B = "index_branch d"
  let ?m = "length ?B"
  let ?h = "Head g arc"
  from cl have ne: "?B \<noteq> []" and top: "Head g (?S ! last ?B) = Tail g arc"
    and on: "?h = src \<or> (\<exists>i<?m. Head g (?S ! (?B ! i)) = ?h)"
    by (simp_all add: closes_cycle_def)
  have le: "cb \<le> ?m" unfolding cb by (rule find_cycle_begin_le)
  have hit: "0 < cb \<Longrightarrow> Head g (?S ! (?B ! (cb - 1))) = ?h"
    unfolding cb by (rule find_cycle_begin_hit)
  have miss: "cb \<le> i \<Longrightarrow> i < ?m \<Longrightarrow> Head g (?S ! (?B ! i)) \<noteq> ?h" for i
    unfolding cb by (rule find_cycle_begin_miss)
  show ?thesis
  proof (cases "cb < ?m")
    case True
    then have "[cb..<?m] \<noteq> []" by auto
    then have l: "last (cycle_arcs d arc cb) = ?S ! (?B ! cb)"
      using True by (simp add: cycle_arcs_def last_map last_rev hd_upt del: upt_eq_Nil_conv)
    have t: "Tail g (?S ! (?B ! cb)) = (if cb = 0 then src else Head g (?S ! (?B ! (cb - 1))))"
      using path True by (simp add: branch_is_path_def)
    show ?thesis
    proof (cases "cb = 0")
      case T0: True
      have "\<not> (\<exists>i<?m. Head g (?S ! (?B ! i)) = ?h)" using miss T0 by auto
      with on have "?h = src" by simp
      with l t T0 show ?thesis by simp
    next
      case False
      with l t hit show ?thesis by simp
    qed
  next
    case False
    with le have e: "cb = ?m" by simp
    then have l: "last (cycle_arcs d arc cb) = arc" by (simp add: cycle_arcs_def)
    have "0 < cb" using e ne by simp
    from hit[OF this] e have "Head g (?S ! (?B ! (?m - 1))) = ?h" by simp
    moreover have "last ?B = ?B ! (?m - 1)" using ne by (simp add: last_conv_nth)
    ultimately show ?thesis using top l by simp
  qed
qed

lemma cancel_cycle_on_path:
  assumes path: "branch_is_path g src d" and cl: "closes_cycle g src d arc"
    and rg: "\<forall>v. FlowQuantity_in_range (node_excess (solver d) v)"
  shows "node_excess (solver (cancel_cycle g (Tail g arc) arc
            (find_cycle_begin g (arc_stack d) (index_branch d) (Head g arc) (length (index_branch d)))
            mf fsi d)) = node_excess (solver d)"
    (is "node_excess (solver ?d1) = _")
proof
  fix v
  let ?cb = "find_cycle_begin g (arc_stack d) (index_branch d) (Head g arc) (length (index_branch d))"
  have s: "solver ?d1 = push_along g (- mf) (cycle_arcs d arc ?cb) (solver d)"
    by (simp add: cancel_cycle_solver cycle_arcs_def push_along_def)
  have c: "chain_back g (cycle_arcs d arc ?cb)"
    by (rule path_cycle_arcs_chain[OF path cl])
  have l: "Tail g (last (cycle_arcs d arc ?cb)) = Head g arc"
    by (rule path_cycle_arcs_last_tail[OF path cl refl])
  have "cycle_arcs d arc ?cb = arc # tl (cycle_arcs d arc ?cb)" by (simp add: cycle_arcs_def)
  with c have c': "chain_back g (arc # tl (cycle_arcs d arc ?cb))" by simp
  have "FlowQuantity_store (node_excess (solver ?d1) v) = FlowQuantity_store (node_excess (solver d) v)"
    using node_excess_push_along[OF c', of "- mf" "solver d" v] l s
    by (simp add: cycle_arcs_def)
  moreover have "FlowQuantity_in_range (node_excess (solver ?d1) v)"
    unfolding s using rg by (simp add: range_push_along)
  ultimately show "node_excess (solver ?d1) v = node_excess (solver d) v"
    using rg by (auto intro: FlowQuantity_in_range_eq)
qed

lemma filter_less_nth:
  assumes "sorted_wrt (<) B" and "i < length B"
  shows "filter (\<lambda>b. b < B ! i) B = take i (B :: nat list)"
proof -
  have B: "B = take i B @ B ! i # drop (Suc i) B" using assms(2) by (rule id_take_nth_drop)
  have s: "sorted_wrt (<) (take i B @ B ! i # drop (Suc i) B)" using assms(1) B by simp
  have 1: "\<forall>x\<in>set (take i B). x < B ! i" using s by (auto simp: sorted_wrt_append)
  have 2: "\<forall>x\<in>set (drop (Suc i) B). B ! i < x" using s by (auto simp: sorted_wrt_append)
  have "filter (\<lambda>b. b < B ! i) (take i B @ B ! i # drop (Suc i) B) = take i B"
    using 1 2 by (auto simp: filter_empty_conv )
  with B show ?thesis by simp
qed

lemma owner_branch:
  assumes "sorted_wrt (<) B" and "i < length B"
  shows "owner g src S B (B ! i) = (if i = 0 then src else Head g (S ! (B ! (i - 1))))"
proof (cases i)
  case 0
  then show ?thesis using filter_less_nth[OF assms] by (simp add: owner_def)
next
  case (Suc k)
  then have "take i B \<noteq> []" using assms(2) by auto
  moreover have "last (take i B) = B ! k" using Suc assms(2)
    by (simp add: take_Suc_conv_app_nth)
  ultimately show ?thesis using filter_less_nth[OF assms] Suc by (simp add: owner_def)
qed

lemma dfs_inv_solver [simp]: "dfs_inv g src (d\<lparr>solver := x\<rparr>) = dfs_inv g src d"
  by (simp add: dfs_inv_def)

lemma dfs_inv_order [simp]: "dfs_inv g src (d\<lparr>reverse_topological_order := x\<rparr>) = dfs_inv g src d"
  by (simp add: dfs_inv_def)

lemma dfs_invD:
  assumes "dfs_inv g src d"
  shows "src < num_nodes g"
    and "set (arc_stack d) \<subseteq> set (direct_arcs g)"
    and "sorted_wrt (<) (index_branch d)"
    and "\<forall>b\<in>set (index_branch d). b < length (arc_stack d)"
    and "\<forall>j<length (arc_stack d).
          Tail g (arc_stack d ! j) = owner g src (arc_stack d) (index_branch d) j"
    and "visited d src"
    and "\<forall>v. stored d v \<longrightarrow> visited d v"
    and "\<forall>b\<in>set (index_branch d).
          visited d (Head g (arc_stack d ! b)) \<and> \<not> stored d (Head g (arc_stack d ! b)) \<and>
          Head g (arc_stack d ! b) \<noteq> src"
    and "inj_on (\<lambda>b. Head g (arc_stack d ! b)) (set (index_branch d))"
    and "\<forall>v. visited d v \<longrightarrow> \<not> stored d v \<longrightarrow>
          v = src \<or> v \<in> (\<lambda>b. Head g (arc_stack d ! b)) ` set (index_branch d)"
    and "\<forall>j<length (arc_stack d). j \<notin> set (index_branch d) \<longrightarrow>
          visited d (Head g (arc_stack d ! j)) \<longrightarrow> \<not> stored d (Head g (arc_stack d ! j)) \<longrightarrow>
          (\<exists>b\<in>set (index_branch d). j < b \<and> Head g (arc_stack d ! b) = Head g (arc_stack d ! j)) \<or>
          (Head g (arc_stack d ! j) = src \<and> (\<forall>b\<in>set (index_branch d). j < b))"
  using assms unfolding dfs_inv_def by blast+

lemma dfs_invI:
  assumes "arc_stack d = S" and "index_branch d = B" and "visited d = V" and "stored d = T"
    and "src < num_nodes g" and "set S \<subseteq> set (direct_arcs g)"
    and "sorted_wrt (<) B" and "\<forall>b\<in>set B. b < length S"
    and "\<forall>j<length S. Tail g (S ! j) = owner g src S B j"
    and "V src" and "\<forall>v. T v \<longrightarrow> V v"
    and "\<forall>b\<in>set B. V (Head g (S ! b)) \<and> \<not> T (Head g (S ! b)) \<and> Head g (S ! b) \<noteq> src"
    and "inj_on (\<lambda>b. Head g (S ! b)) (set B)"
    and "\<forall>v. V v \<longrightarrow> \<not> T v \<longrightarrow> v = src \<or> v \<in> (\<lambda>b. Head g (S ! b)) ` set B"
    and "\<forall>j<length S. j \<notin> set B \<longrightarrow> V (Head g (S ! j)) \<longrightarrow> \<not> T (Head g (S ! j)) \<longrightarrow>
          (\<exists>b\<in>set B. j < b \<and> Head g (S ! b) = Head g (S ! j)) \<or>
          (Head g (S ! j) = src \<and> (\<forall>b\<in>set B. j < b))"
  shows "dfs_inv g src d"
  unfolding dfs_inv_def assms(1-4) using assms(5-) by blast

lemma dfs_inv_cong:
  "arc_stack d' = arc_stack d \<Longrightarrow> index_branch d' = index_branch d \<Longrightarrow>
   visited d' = visited d \<Longrightarrow> stored d' = stored d \<Longrightarrow>
   dfs_inv g src d' = dfs_inv g src d"
  by (simp add: dfs_inv_def)

lemma dfs_inv_branch_is_path:
  assumes inv: "dfs_inv g src d"
  shows "branch_is_path g src d"
proof -
  note I = dfs_invD[OF inv]
  show ?thesis
    unfolding branch_is_path_def
  proof (intro allI impI conjI)
    fix i assume i: "i < length (index_branch d)"
    then show lt: "index_branch d ! i < length (arc_stack d)" using I(4) by simp
    from I(5) lt owner_branch[OF I(3) i, of g src "arc_stack d"]
    show "Tail g (arc_stack d ! (index_branch d ! i)) =
          (if i = 0 then src else Head g (arc_stack d ! (index_branch d ! (i - 1))))" by simp
  qed
qed

lemma dfs_inv_closes_cycle:
  assumes inv: "dfs_inv g src d" and ne: "index_branch d \<noteq> []"
    and top: "Head g (arc_stack d ! last (index_branch d)) = Tail g arc"
    and vis: "visited d (Head g arc)" and nst: "\<not> stored d (Head g arc)"
  shows "closes_cycle g src d arc"
proof -
  from dfs_invD(10)[OF inv] vis nst
  have "Head g arc = src \<or> Head g arc \<in> (\<lambda>b. Head g (arc_stack d ! b)) ` set (index_branch d)"
    by blast
  then have "Head g arc = src \<or>
       (\<exists>i<length (index_branch d). Head g (arc_stack d ! (index_branch d ! i)) = Head g arc)"
    by (auto simp: in_set_conv_nth)
  with ne top show ?thesis by (simp add: closes_cycle_def)
qed

lemma cancel_cycle_keeps_excess:
  assumes inv: "dfs_inv g src d" and ne: "index_branch d \<noteq> []"
    and top: "Head g (arc_stack d ! last (index_branch d)) = node"
    and tail: "Tail g arc = node"
    and vis: "visited d (Head g arc)" and nst: "\<not> stored d (Head g arc)"
    and rg: "\<forall>v. FlowQuantity_in_range (node_excess (solver d) v)"
  shows "node_excess (solver (cancel_cycle g node arc
            (find_cycle_begin g (arc_stack d) (index_branch d) (Head g arc) (length (index_branch d)))
            mf fsi d)) = node_excess (solver d)"
proof -
  have "closes_cycle g src d arc"
    using dfs_inv_closes_cycle[OF inv ne _ vis nst] top tail by simp
  from cancel_cycle_on_path[OF dfs_inv_branch_is_path[OF inv] this rg, of mf fsi] tail
  show ?thesis by simp
qed

lemma last_filter_in: "filter P xs \<noteq> [] \<Longrightarrow> last (filter P xs) \<in> set xs \<and> P (last (filter P xs))"
  using last_in_set[of "filter P xs"] by auto

lemma owner_append_branch:
  "j \<le> t \<Longrightarrow> owner g src S (B @ [t]) j = owner g src S B j"
  by (simp add: owner_def)

lemma owner_snoc_stack:
  assumes "\<forall>b\<in>set B. b < length S"
  shows "owner g src (S @ [a]) B j = owner g src S B j"
proof (cases "filter (\<lambda>b. b < j) B = []")
  case True
  then show ?thesis by (simp add: owner_def)
next
  case False
  from last_filter_in[OF False] assms have "last (filter (\<lambda>b. b < j) B) < length S" by auto
  then show ?thesis by (simp add: owner_def nth_append)
qed

lemma owner_top:
  assumes "\<forall>b\<in>set B. b < length S" and "B \<noteq> []"
  shows "owner g src S B (length S) = Head g (S ! last B)"
proof -
  have "filter (\<lambda>b. b < length S) B = B" using assms(1) by (simp add: filter_id_conv)
  with assms(2) show ?thesis by (simp add: owner_def)
qed

lemma sorted_wrt_less_nth_mono:
  "sorted_wrt (<) (B :: nat list) \<Longrightarrow> i < k \<Longrightarrow> k < length B \<Longrightarrow> B ! i < B ! k"
  by (simp add: sorted_wrt_iff_nth_less)

lemma owner_take:
  assumes sorted: "sorted_wrt (<) B" and k: "k < length B" and j: "j < B ! k"
  shows "owner g src (take (B ! k) S) (take k B) j = owner g src S B j"
proof -
  have ge: "\<forall>x\<in>set (drop k B). B ! k \<le> x"
  proof
    fix x assume "x \<in> set (drop k B)"
    then obtain i where i: "i < length B - k" "x = B ! (k + i)"
      by (auto simp: in_set_conv_nth)
    show "B ! k \<le> x"
    proof (cases i)
      case 0 with i show ?thesis by simp
    next
      case (Suc n)
      with i have "k < k + i" "k + i < length B" by simp_all
      from sorted_wrt_less_nth_mono[OF sorted this] i show ?thesis by simp
    qed
  qed
  have "filter (\<lambda>b. b < j) B = filter (\<lambda>b. b < j) (take k B @ drop k B)" by simp
  also have "\<dots> = filter (\<lambda>b. b < j) (take k B)"
    using ge j by (auto simp: filter_empty_conv simp del: append_take_drop_id)
  finally have f: "filter (\<lambda>b. b < j) B = filter (\<lambda>b. b < j) (take k B)" .
  show ?thesis
  proof (cases "filter (\<lambda>b. b < j) B = []")
    case True
    with f show ?thesis by (simp add: owner_def)
  next
    case False
    from last_filter_in[OF False] j have "last (filter (\<lambda>b. b < j) B) < B ! k" by auto
    with f show ?thesis by (simp add: owner_def)
  qed
qed

lemma dfs_inv_start:
  assumes ok: "graph_ok g" and src: "source st < num_nodes g"
  shows "dfs_inv g (source st) (dfs_start g st)"
proof -
  have out: "set (OutgoingArcs g (source st)) = set (filter (\<lambda>a. Tail g a = source st) (direct_arcs g))"
    using ok src by (simp add: graph_ok_def)
  have t: "Tail g (filter (\<lambda>arc. Flow g st arc > 0) (OutgoingArcs g (source st)) ! j) = source st"
    if "j < length (filter (\<lambda>arc. Flow g st arc > 0) (OutgoingArcs g (source st)))" for j
  proof -
    from that have "filter (\<lambda>arc. Flow g st arc > 0) (OutgoingArcs g (source st)) ! j
        \<in> set (filter (\<lambda>arc. Flow g st arc > 0) (OutgoingArcs g (source st)))"
      by (rule nth_mem)
    with out show ?thesis by auto
  qed
  show ?thesis
    using src out t by (auto simp: dfs_inv_def dfs_start_def owner_def)
qed

lemma dfs_inv_expand:
  assumes inv: "dfs_inv g src d" and ne: "arc_stack d \<noteq> []"
    and unv: "\<not> visited d (Head g (last (arc_stack d)))"
  shows "dfs_inv g src (d\<lparr>visited := (visited d)(Head g (last (arc_stack d)) := True),
           index_branch := index_branch d @ [length (arc_stack d) - 1]\<rparr>)"
proof -
  let ?S = "arc_stack d" and ?B = "index_branch d" and ?V = "visited d" and ?T = "stored d"
  let ?j = "length ?S - 1"
  let ?node = "Head g (last ?S)"
  have top: "?S ! ?j = last ?S" using ne by (simp add: last_conv_nth)
  have jlt: "?j < length ?S" using ne by simp
  note I = inv[unfolded dfs_inv_def]
  have Bv: "\<forall>b\<in>set ?B. ?V (Head g (?S ! b)) \<and> \<not> ?T (Head g (?S ! b)) \<and> Head g (?S ! b) \<noteq> src"
    using I by blast
  have Blt: "\<forall>b\<in>set ?B. b < length ?S" using I by blast
  have notin: "?j \<notin> set ?B" using Bv unv top by auto
  have below: "\<forall>b\<in>set ?B. b < ?j"
  proof
    fix b assume b: "b \<in> set ?B"
    with Blt have "b \<le> ?j" by fastforce
    moreover have "b \<noteq> ?j" using b notin by auto
    ultimately show "b < ?j" by simp
  qed
  have nst: "\<not> ?T ?node" using I unv by blast
  have nsrc: "?node \<noteq> src" using I unv by auto
  have 1: "sorted_wrt (<) (?B @ [?j])" using I below by (simp add: sorted_wrt_append)
  have 2: "\<forall>b\<in>set (?B @ [?j]). b < length ?S" using Blt jlt by auto
  have 3: "\<forall>j<length ?S. Tail g (?S ! j) = owner g src ?S (?B @ [?j]) j"
  proof (intro allI impI)
    fix j assume "j < length ?S"
    then have "j \<le> ?j" by simp
    then show "Tail g (?S ! j) = owner g src ?S (?B @ [?j]) j"
      using I \<open>j < length ?S\<close> by (simp add: owner_append_branch)
  qed
  have 4: "\<forall>b\<in>set (?B @ [?j]). (?V(?node := True)) (Head g (?S ! b)) \<and> \<not> ?T (Head g (?S ! b)) \<and>
            Head g (?S ! b) \<noteq> src"
    using Bv nst nsrc top by auto
  have 5: "inj_on (\<lambda>b. Head g (?S ! b)) (set (?B @ [?j]))"
  proof -
    have "inj_on (\<lambda>b. Head g (?S ! b)) (set ?B)" using I by blast
    moreover have "Head g (?S ! ?j) \<notin> (\<lambda>b. Head g (?S ! b)) ` (set ?B - {?j})"
      using Bv unv top by auto
    ultimately show ?thesis by simp
  qed
  have 6: "\<forall>v. (?V(?node := True)) v \<longrightarrow> \<not> ?T v \<longrightarrow>
        v = src \<or> v \<in> (\<lambda>b. Head g (?S ! b)) ` set (?B @ [?j])"
  proof (intro allI impI)
    fix v assume v: "(?V(?node := True)) v" "\<not> ?T v"
    show "v = src \<or> v \<in> (\<lambda>b. Head g (?S ! b)) ` set (?B @ [?j])"
    proof (cases "v = ?node")
      case True
      then show ?thesis using top by simp
    next
      case False
      with v have "?V v" by simp
      with v(2) I have "v = src \<or> v \<in> (\<lambda>b. Head g (?S ! b)) ` set ?B" by blast
      then show ?thesis by auto
    qed
  qed
  have 7: "\<forall>j<length ?S. j \<notin> set (?B @ [?j]) \<longrightarrow>
          (?V(?node := True)) (Head g (?S ! j)) \<longrightarrow> \<not> ?T (Head g (?S ! j)) \<longrightarrow>
          (\<exists>b\<in>set (?B @ [?j]). j < b \<and> Head g (?S ! b) = Head g (?S ! j)) \<or>
          (Head g (?S ! j) = src \<and> (\<forall>b\<in>set (?B @ [?j]). j < b))"
  proof (intro allI impI)
    fix j assume j: "j < length ?S" "j \<notin> set (?B @ [?j])"
      and v: "(?V(?node := True)) (Head g (?S ! j))" "\<not> ?T (Head g (?S ! j))"
    from j have jj: "j < ?j" by auto
    show "(\<exists>b\<in>set (?B @ [?j]). j < b \<and> Head g (?S ! b) = Head g (?S ! j)) \<or>
          (Head g (?S ! j) = src \<and> (\<forall>b\<in>set (?B @ [?j]). j < b))"
    proof (cases "Head g (?S ! j) = ?node")
      case True
      with jj top show ?thesis by auto
    next
      case False
      with v have "?V (Head g (?S ! j))" by simp
      with I j v(2) have "(\<exists>b\<in>set ?B. j < b \<and> Head g (?S ! b) = Head g (?S ! j)) \<or>
          (Head g (?S ! j) = src \<and> (\<forall>b\<in>set ?B. j < b))" by auto
      with jj show ?thesis by auto
    qed
  qed
  have 8: "(?V(?node := True)) src" "\<forall>v. ?T v \<longrightarrow> (?V(?node := True)) v"
    using I by auto
  have 9: "src < num_nodes g" "set ?S \<subseteq> set (direct_arcs g)" using I by auto
  show ?thesis
    by (rule dfs_invI[where S = ?S and B = "?B @ [?j]" and V = "?V(?node := True)" and T = ?T]; (fact | (simp; fail)))
qed

lemma owner_butlast_stack:
  assumes "\<forall>b\<in>set B. b < length S - 1"
  shows "owner g src (butlast S) B j = owner g src S B j"
proof (cases "filter (\<lambda>b. b < j) B = []")
  case True
  then show ?thesis by (simp add: owner_def)
next
  case False
  from last_filter_in[OF False] assms have "last (filter (\<lambda>b. b < j) B) < length S - 1" by auto
  then show ?thesis by (simp add: owner_def nth_butlast)
qed

lemma dfs_inv_pop_stored:
  assumes inv: "dfs_inv g src d" and ne: "arc_stack d \<noteq> []"
    and st: "stored d (Head g (last (arc_stack d)))"
  shows "dfs_inv g src (d\<lparr>arc_stack := butlast (arc_stack d)\<rparr>)"
proof -
  let ?S = "arc_stack d" and ?B = "index_branch d" and ?V = "visited d" and ?T = "stored d"
  let ?j = "length ?S - 1"
  have top: "?S ! ?j = last ?S" using ne by (simp add: last_conv_nth)
  note I = inv[unfolded dfs_inv_def]
  have Bv: "\<forall>b\<in>set ?B. ?V (Head g (?S ! b)) \<and> \<not> ?T (Head g (?S ! b)) \<and> Head g (?S ! b) \<noteq> src"
    using I by blast
  have Blt: "\<forall>b\<in>set ?B. b < length ?S" using I by blast
  have notin: "?j \<notin> set ?B" using Bv st top by auto
  have below: "\<forall>b\<in>set ?B. b < ?j"
  proof
    fix b assume b: "b \<in> set ?B"
    with Blt have "b \<le> ?j" by fastforce
    moreover have "b \<noteq> ?j" using b notin by auto
    ultimately show "b < ?j" by simp
  qed
  have nb: "butlast ?S ! b = ?S ! b" if "b < ?j" for b using that by (simp add: nth_butlast)
  have 2: "\<forall>b\<in>set ?B. b < length (butlast ?S)" using below by simp
  have 3: "\<forall>j<length (butlast ?S). Tail g (butlast ?S ! j) = owner g src (butlast ?S) ?B j"
    using I below by (simp add: owner_butlast_stack nth_butlast)
  have 4: "\<forall>b\<in>set ?B. ?V (Head g (butlast ?S ! b)) \<and> \<not> ?T (Head g (butlast ?S ! b)) \<and>
            Head g (butlast ?S ! b) \<noteq> src"
    using Bv below nb by simp
  have 5: "inj_on (\<lambda>b. Head g (butlast ?S ! b)) (set ?B)"
  proof -
    have "inj_on (\<lambda>b. Head g (?S ! b)) (set ?B)" using I by blast
    then show ?thesis using below nb by (auto simp: inj_on_def)
  qed
  have img: "(\<lambda>b. Head g (butlast ?S ! b)) ` set ?B = (\<lambda>b. Head g (?S ! b)) ` set ?B"
    using below nb by (auto simp: image_iff)
  have 6: "\<forall>v. ?V v \<longrightarrow> \<not> ?T v \<longrightarrow> v = src \<or> v \<in> (\<lambda>b. Head g (butlast ?S ! b)) ` set ?B"
    unfolding img using I by blast
  have 7: "\<forall>j<length (butlast ?S). j \<notin> set ?B \<longrightarrow>
          ?V (Head g (butlast ?S ! j)) \<longrightarrow> \<not> ?T (Head g (butlast ?S ! j)) \<longrightarrow>
          (\<exists>b\<in>set ?B. j < b \<and> Head g (butlast ?S ! b) = Head g (butlast ?S ! j)) \<or>
          (Head g (butlast ?S ! j) = src \<and> (\<forall>b\<in>set ?B. j < b))"
  proof (intro allI impI)
    fix j assume j: "j < length (butlast ?S)" "j \<notin> set ?B"
      and v: "?V (Head g (butlast ?S ! j))" "\<not> ?T (Head g (butlast ?S ! j))"
    from j have jj: "j < ?j" by simp
    then have jl: "j < length ?S" by simp
    from v jj have "?V (Head g (?S ! j))" "\<not> ?T (Head g (?S ! j))" by (simp_all add: nb)
    with I jl j(2) have "(\<exists>b\<in>set ?B. j < b \<and> Head g (?S ! b) = Head g (?S ! j)) \<or>
          (Head g (?S ! j) = src \<and> (\<forall>b\<in>set ?B. j < b))" by blast
    then show "(\<exists>b\<in>set ?B. j < b \<and> Head g (butlast ?S ! b) = Head g (butlast ?S ! j)) \<or>
          (Head g (butlast ?S ! j) = src \<and> (\<forall>b\<in>set ?B. j < b))"
      using below jj nb by auto
  qed
  have 9: "src < num_nodes g" "set (butlast ?S) \<subseteq> set (direct_arcs g)" "sorted_wrt (<) ?B"
    "?V src" "\<forall>v. ?T v \<longrightarrow> ?V v"
    using I in_set_butlastD by (auto, fastforce)
  show ?thesis
    by (rule dfs_invI[where S = "butlast ?S" and B = ?B and V = ?V and T = ?T]; (fact | (simp; fail)))
qed

lemma dfs_inv_truncate:
  assumes inv: "dfs_inv g src d" and k: "k < length (index_branch d)"
    and Vsrc: "V' src" and TV: "\<forall>v. T' v \<longrightarrow> V' v"
    and keep: "\<forall>i<k. V' (Head g (arc_stack d ! (index_branch d ! i))) \<and>
                     \<not> T' (Head g (arc_stack d ! (index_branch d ! i)))"
    and sub: "\<forall>v. V' v \<longrightarrow> \<not> T' v \<longrightarrow> visited d v \<and> \<not> stored d v \<and>
                 (\<forall>i. k \<le> i \<longrightarrow> i < length (index_branch d) \<longrightarrow>
                      Head g (arc_stack d ! (index_branch d ! i)) \<noteq> v)"
  shows "dfs_inv g src (d\<lparr>visited := V', stored := T',
           arc_stack := take (index_branch d ! k) (arc_stack d),
           index_branch := take k (index_branch d)\<rparr>)"
proof -
  let ?S = "arc_stack d" and ?B = "index_branch d" and ?V = "visited d" and ?T = "stored d"
  let ?S' = "take (?B ! k) ?S" and ?B' = "take k ?B"
  note I = inv[unfolded dfs_inv_def]
  have sorted: "sorted_wrt (<) ?B" using I by blast
  have Blt: "\<forall>b\<in>set ?B. b < length ?S" using I by blast
  have Bk: "?B ! k < length ?S" using Blt k by simp
  have len: "length ?S' = ?B ! k" using Bk by simp
  have B'nth: "\<exists>i<k. b = ?B ! i" if "b \<in> set ?B'" for b
    using that k by (auto simp: in_set_conv_nth)
  have B'lt: "b < ?B ! k" if "b \<in> set ?B'" for b
    using B'nth[OF that] sorted_wrt_less_nth_mono[OF sorted _ k] by auto
  have B'sub: "set ?B' \<subseteq> set ?B" by (rule set_take_subset)
  have nS: "?S' ! j = ?S ! j" if "j < ?B ! k" for j using that by simp
  have idx: "\<exists>i<length ?B. b = ?B ! i \<and> (b < ?B ! k \<longrightarrow> i < k)" if "b \<in> set ?B" for b
  proof -
    from that obtain i where i: "i < length ?B" "b = ?B ! i" by (auto simp: in_set_conv_nth)
    have "i < k" if "b < ?B ! k"
    proof (rule ccontr)
      assume "\<not> i < k"
      then have "k = i \<or> k < i" by auto
      then show False
        using that i sorted_wrt_less_nth_mono[OF sorted _ i(1), of k] by auto
    qed
    with i show ?thesis by blast
  qed
  have inB': "b \<in> set ?B'" if "b \<in> set ?B" "b < ?B ! k" for b
  proof -
    from idx[OF that(1)] that(2) obtain i where "i < k" "b = ?B ! i" by auto
    then show ?thesis using k by (auto simp: in_set_conv_nth)
  qed
  have 1: "sorted_wrt (<) ?B'" using sorted by (rule sorted_wrt_take)
  have 2: "\<forall>b\<in>set ?B'. b < length ?S'" using B'lt len by simp
  have 3: "\<forall>j<length ?S'. Tail g (?S' ! j) = owner g src ?S' ?B' j"
    using I len owner_take[OF sorted k] by simp
  have 4: "\<forall>b\<in>set ?B'. V' (Head g (?S' ! b)) \<and> \<not> T' (Head g (?S' ! b)) \<and> Head g (?S' ! b) \<noteq> src"
  proof
    fix b assume b: "b \<in> set ?B'"
    from B'nth[OF b] obtain i where i: "i < k" "b = ?B ! i" by blast
    have "Head g (?S ! b) \<noteq> src" using I b B'sub by blast
    with keep i B'lt[OF b] show "V' (Head g (?S' ! b)) \<and> \<not> T' (Head g (?S' ! b)) \<and> Head g (?S' ! b) \<noteq> src"
      by (simp add: nS)
  qed
  have 5: "inj_on (\<lambda>b. Head g (?S' ! b)) (set ?B')"
  proof -
    have "inj_on (\<lambda>b. Head g (?S ! b)) (set ?B)" using I by blast
    then have "inj_on (\<lambda>b. Head g (?S ! b)) (set ?B')" using B'sub by (rule inj_on_subset)
    then show ?thesis using B'lt nS by (auto simp: inj_on_def)
  qed
  have 6: "\<forall>v. V' v \<longrightarrow> \<not> T' v \<longrightarrow> v = src \<or> v \<in> (\<lambda>b. Head g (?S' ! b)) ` set ?B'"
  proof (intro allI impI)
    fix v assume v: "V' v" "\<not> T' v"
    with sub have o: "?V v" "\<not> ?T v"
      and nr: "\<forall>i. k \<le> i \<longrightarrow> i < length ?B \<longrightarrow> Head g (?S ! (?B ! i)) \<noteq> v" by blast+
    from o I have "v = src \<or> v \<in> (\<lambda>b. Head g (?S ! b)) ` set ?B" by blast
    then show "v = src \<or> v \<in> (\<lambda>b. Head g (?S' ! b)) ` set ?B'"
    proof
      assume "v = src" then show ?thesis by simp
    next
      assume "v \<in> (\<lambda>b. Head g (?S ! b)) ` set ?B"
      then obtain i where i: "i < length ?B" "Head g (?S ! (?B ! i)) = v"
        by (auto simp: in_set_conv_nth)
      with nr have ik: "i < k" by (metis not_le_imp_less)
      then have "?B ! i \<in> set ?B'" using k by (auto simp: in_set_conv_nth)
      moreover have "Head g (?S' ! (?B ! i)) = v"
        using i ik sorted_wrt_less_nth_mono[OF sorted ik k] by (simp add: nS)
      ultimately show ?thesis by (auto simp: image_iff)
    qed
  qed
  have 7: "\<forall>j<length ?S'. j \<notin> set ?B' \<longrightarrow>
          V' (Head g (?S' ! j)) \<longrightarrow> \<not> T' (Head g (?S' ! j)) \<longrightarrow>
          (\<exists>b\<in>set ?B'. j < b \<and> Head g (?S' ! b) = Head g (?S' ! j)) \<or>
          (Head g (?S' ! j) = src \<and> (\<forall>b\<in>set ?B'. j < b))"
  proof (intro allI impI)
    fix j assume j: "j < length ?S'" "j \<notin> set ?B'"
      and v: "V' (Head g (?S' ! j))" "\<not> T' (Head g (?S' ! j))"
    from j len have jk: "j < ?B ! k" by simp
    then have jl: "j < length ?S" using Bk by simp
    have jn: "j \<notin> set ?B" using j(2) inB' jk by blast
    let ?h = "Head g (?S ! j)"
    from v jk have v': "V' ?h" "\<not> T' ?h" by (simp_all add: nS)
    with sub have o: "?V ?h" "\<not> ?T ?h"
      and nr: "\<forall>i. k \<le> i \<longrightarrow> i < length ?B \<longrightarrow> Head g (?S ! (?B ! i)) \<noteq> ?h" by blast+
    from I jl jn o have "(\<exists>b\<in>set ?B. j < b \<and> Head g (?S ! b) = ?h) \<or>
          (?h = src \<and> (\<forall>b\<in>set ?B. j < b))" by blast
    then show "(\<exists>b\<in>set ?B'. j < b \<and> Head g (?S' ! b) = Head g (?S' ! j)) \<or>
          (Head g (?S' ! j) = src \<and> (\<forall>b\<in>set ?B'. j < b))"
    proof
      assume "\<exists>b\<in>set ?B. j < b \<and> Head g (?S ! b) = ?h"
      then obtain b where b: "b \<in> set ?B" "j < b" "Head g (?S ! b) = ?h" by blast
      from idx[OF b(1)] obtain i where i: "i < length ?B" "b = ?B ! i" by blast
      with nr b(3) have ik: "i < k" by (metis not_le_imp_less)
      then have "b \<in> set ?B'" using i k by (auto simp: in_set_conv_nth)
      moreover have "b < ?B ! k" using i ik sorted_wrt_less_nth_mono[OF sorted ik k] by simp
      ultimately show ?thesis using b jk by (auto simp: nS)
    next
      assume "?h = src \<and> (\<forall>b\<in>set ?B. j < b)"
      then show ?thesis using B'sub jk by (auto simp: nS)
    qed
  qed
  have 9: "src < num_nodes g" "set ?S' \<subseteq> set (direct_arcs g)"
    using I set_take_subset[of "?B ! k" ?S] by auto
  show ?thesis
    by (rule dfs_invI[where S = ?S' and B = ?B' and V = V' and T = T']; (fact | (simp; fail)))
qed

lemma cycle_max_flow_index:
  "snd (cycle_max_flow g d cb flow) = length (index_branch d) \<or>
   (cb \<le> snd (cycle_max_flow g d cb flow) \<and> snd (cycle_max_flow g d cb flow) < length (index_branch d))"
  unfolding cycle_max_flow_def
  by (rule fold_invariant[where P = "\<lambda>acc. snd acc = length (index_branch d) \<or>
        (cb \<le> snd acc \<and> snd acc < length (index_branch d))"])
     (auto simp: Let_def split: prod.splits)

lemma dfs_inv_push:
  assumes inv: "dfs_inv g src d" and ne: "index_branch d \<noteq> []"
    and tail: "Tail g arc = Head g (arc_stack d ! last (index_branch d))"
    and dir: "arc \<in> set (direct_arcs g)"
    and unv: "\<not> visited d (Head g arc)"
  shows "dfs_inv g src (d\<lparr>arc_stack := arc_stack d @ [arc]\<rparr>)"
proof -
  let ?S = "arc_stack d" and ?B = "index_branch d" and ?V = "visited d" and ?T = "stored d"
  let ?S' = "?S @ [arc]"
  note I = dfs_invD[OF inv]
  have Blt: "\<forall>b\<in>set ?B. b < length ?S" by (rule I(4))
  have nS: "?S' ! j = ?S ! j" if "j < length ?S" for j using that by (simp add: nth_append)
  have nB: "?S' ! b = ?S ! b" if "b \<in> set ?B" for b using that Blt by (simp add: nth_append)
  have 1: "src < num_nodes g" "sorted_wrt (<) ?B" "?V src" "\<forall>v. ?T v \<longrightarrow> ?V v"
    by (rule I)+
  have 2: "set ?S' \<subseteq> set (direct_arcs g)" using I(2) dir by simp
  have 3: "\<forall>b\<in>set ?B. b < length ?S'" using Blt by auto
  have 4: "\<forall>j<length ?S'. Tail g (?S' ! j) = owner g src ?S' ?B j"
  proof (intro allI impI)
    fix j assume j: "j < length ?S'"
    show "Tail g (?S' ! j) = owner g src ?S' ?B j"
    proof (cases "j < length ?S")
      case True
      with I(5) show ?thesis by (simp add: owner_snoc_stack[OF Blt] nS)
    next
      case False
      with j have e: "j = length ?S" by simp
      then show ?thesis using tail owner_top[OF Blt ne, of g src]
        by (simp add: owner_snoc_stack[OF Blt])
    qed
  qed
  have 5: "\<forall>b\<in>set ?B. ?V (Head g (?S' ! b)) \<and> \<not> ?T (Head g (?S' ! b)) \<and> Head g (?S' ! b) \<noteq> src"
    using I(8) nB by simp
  have 6: "inj_on (\<lambda>b. Head g (?S' ! b)) (set ?B)"
    using I(9) nB by (auto simp: inj_on_def)
  have img: "(\<lambda>b. Head g (?S' ! b)) ` set ?B = (\<lambda>b. Head g (?S ! b)) ` set ?B"
    using nB by (auto simp: image_iff)
  have 7: "\<forall>v. ?V v \<longrightarrow> \<not> ?T v \<longrightarrow> v = src \<or> v \<in> (\<lambda>b. Head g (?S' ! b)) ` set ?B"
    unfolding img by (rule I(10))
  have 8: "\<forall>j<length ?S'. j \<notin> set ?B \<longrightarrow> ?V (Head g (?S' ! j)) \<longrightarrow> \<not> ?T (Head g (?S' ! j)) \<longrightarrow>
          (\<exists>b\<in>set ?B. j < b \<and> Head g (?S' ! b) = Head g (?S' ! j)) \<or>
          (Head g (?S' ! j) = src \<and> (\<forall>b\<in>set ?B. j < b))"
  proof (intro allI impI)
    fix j assume j: "j < length ?S'" "j \<notin> set ?B"
      and v: "?V (Head g (?S' ! j))" "\<not> ?T (Head g (?S' ! j))"
    have jl: "j < length ?S"
    proof (rule ccontr)
      assume "\<not> j < length ?S"
      with j have "j = length ?S" by simp
      with v unv show False by simp
    qed
    with v have "?V (Head g (?S ! j))" "\<not> ?T (Head g (?S ! j))" by (simp_all add: nS)
    with I(11) jl j(2) have "(\<exists>b\<in>set ?B. j < b \<and> Head g (?S ! b) = Head g (?S ! j)) \<or>
          (Head g (?S ! j) = src \<and> (\<forall>b\<in>set ?B. j < b))" by blast
    then show "(\<exists>b\<in>set ?B. j < b \<and> Head g (?S' ! b) = Head g (?S' ! j)) \<or>
          (Head g (?S' ! j) = src \<and> (\<forall>b\<in>set ?B. j < b))"
      using nB nS[OF jl] by auto
  qed
  show ?thesis
    by (rule dfs_invI[where S = ?S' and B = ?B and V = ?V and T = ?T]; (fact | (simp; fail)))
qed

lemma last_sorted_branch:
  assumes "sorted_wrt (<) (B :: nat list)" and "j \<in> set B" and "\<forall>b\<in>set B. b \<le> j"
  shows "last B = j"
proof -
  from assms(2) have ne: "B \<noteq> []" by auto
  then have l: "last B \<in> set B" by simp
  from assms(2) obtain i where i: "i < length B" "B ! i = j" by (auto simp: in_set_conv_nth)
  have "last B = B ! (length B - 1)" using ne by (simp add: last_conv_nth)
  show ?thesis
  proof (cases "i = length B - 1")
    case True
    with i \<open>last B = B ! (length B - 1)\<close> show ?thesis by simp
  next
    case False
    with i have "i < length B - 1" "length B - 1 < length B" by simp_all
    from sorted_wrt_less_nth_mono[OF assms(1) this] i \<open>last B = B ! (length B - 1)\<close>
    have "j < last B" by simp
    with assms(3) l show ?thesis by auto
  qed
qed

lemma dfs_inv_top_is_branch:
  assumes inv: "dfs_inv g src d" and ne: "arc_stack d \<noteq> []" and nb: "index_branch d \<noteq> []"
    and vis: "visited d (Head g (last (arc_stack d)))"
    and nst: "\<not> stored d (Head g (last (arc_stack d)))"
  shows "last (index_branch d) = length (arc_stack d) - 1"
proof -
  let ?S = "arc_stack d" and ?B = "index_branch d"
  let ?j = "length ?S - 1"
  note I = dfs_invD[OF inv]
  have top: "?S ! ?j = last ?S" using ne by (simp add: last_conv_nth)
  have jl: "?j < length ?S" using ne by simp
  have le: "\<forall>b\<in>set ?B. b \<le> ?j" using I(4) by fastforce
  have "?j \<in> set ?B"
  proof (rule ccontr)
    assume n: "?j \<notin> set ?B"
    have v: "visited d (Head g (?S ! ?j))" "\<not> stored d (Head g (?S ! ?j))"
      using vis nst top by simp_all
    from I(11)[rule_format, OF jl n v]
    have "(\<exists>b\<in>set ?B. ?j < b \<and> Head g (?S ! b) = Head g (?S ! ?j)) \<or>
          (Head g (?S ! ?j) = src \<and> (\<forall>b\<in>set ?B. ?j < b))" .
    then show False
    proof
      assume "\<exists>b\<in>set ?B. ?j < b \<and> Head g (?S ! b) = Head g (?S ! ?j)"
      with le show False by fastforce
    next
      assume "Head g (?S ! ?j) = src \<and> (\<forall>b\<in>set ?B. ?j < b)"
      moreover from nb have "last ?B \<in> set ?B" by simp
      ultimately show False using le by fastforce
    qed
  qed
  from last_sorted_branch[OF I(3) this le] show ?thesis .
qed

lemma dfs_inv_pop_branch:
  assumes inv: "dfs_inv g src d" and ne: "arc_stack d \<noteq> []" and nb: "index_branch d \<noteq> []"
    and vis: "visited d (Head g (last (arc_stack d)))"
    and nst: "\<not> stored d (Head g (last (arc_stack d)))"
  shows "dfs_inv g src (d\<lparr>stored := (stored d)(Head g (last (arc_stack d)) := True),
           reverse_topological_order := ord,
           index_branch := butlast (index_branch d),
           arc_stack := butlast (arc_stack d)\<rparr>)"
proof -
  let ?S = "arc_stack d" and ?B = "index_branch d" and ?V = "visited d" and ?T = "stored d"
  let ?node = "Head g (last ?S)"
  let ?k = "length ?B - 1"
  note I = dfs_invD[OF inv]
  have k: "?k < length ?B" using nb by simp
  have lB: "?B ! ?k = length ?S - 1"
    using dfs_inv_top_is_branch[OF assms] nb by (simp add: last_conv_nth)
  have hd: "Head g (?S ! (?B ! ?k)) = ?node" using lB ne by (simp add: last_conv_nth)
  have inj: "Head g (?S ! (?B ! i)) \<noteq> ?node" if "i < ?k" for i
  proof
    assume e: "Head g (?S ! (?B ! i)) = ?node"
    have "?B ! i \<in> set ?B" "?B ! ?k \<in> set ?B" using that k by simp_all
    with I(9) e hd have "?B ! i = ?B ! ?k" by (auto simp: inj_on_def)
    moreover have "?B ! i < ?B ! ?k" using sorted_wrt_less_nth_mono[OF I(3) that k] .
    ultimately show False by simp
  qed
  have keep: "\<forall>i<?k. ?V (Head g (?S ! (?B ! i))) \<and> \<not> (?T(?node := True)) (Head g (?S ! (?B ! i)))"
  proof (intro allI impI)
    fix i assume i: "i < ?k"
    then have "?B ! i \<in> set ?B" using k by simp
    with I(8) inj[OF i] show "?V (Head g (?S ! (?B ! i))) \<and> \<not> (?T(?node := True)) (Head g (?S ! (?B ! i)))"
      by simp
  qed
  have sub: "\<forall>v. ?V v \<longrightarrow> \<not> (?T(?node := True)) v \<longrightarrow> ?V v \<and> \<not> ?T v \<and>
          (\<forall>i. ?k \<le> i \<longrightarrow> i < length ?B \<longrightarrow> Head g (?S ! (?B ! i)) \<noteq> v)"
  proof (intro allI impI conjI)
    fix v i assume v: "\<not> (?T(?node := True)) v" and i: "?k \<le> i" "i < length ?B"
    then have "i = ?k" by simp
    with hd v show "Head g (?S ! (?B ! i)) \<noteq> v" by auto
  qed (auto split: if_splits)
  have TV: "\<forall>v. (?T(?node := True)) v \<longrightarrow> ?V v" using I(7) vis by simp
  from dfs_inv_truncate[OF inv k I(6) TV keep sub]
  have "dfs_inv g src (d\<lparr>visited := ?V, stored := ?T(?node := True),
           arc_stack := take (?B ! ?k) ?S, index_branch := take ?k ?B\<rparr>)" .
  moreover have "take (?B ! ?k) ?S = butlast ?S" "take ?k ?B = butlast ?B"
    using lB by (simp_all add: butlast_conv_take)
  ultimately show ?thesis
    by (simp add: dfs_inv_cong[where d' = "d\<lparr>stored := (stored d)(Head g (last (arc_stack d)) := True),
           reverse_topological_order := ord, index_branch := butlast (index_branch d),
           arc_stack := butlast (arc_stack d)\<rparr>" and d = "d\<lparr>visited := ?V, stored := ?T(?node := True),
           arc_stack := butlast ?S, index_branch := butlast ?B\<rparr>"])
qed

lemma dfs_inv_cancel_truncate:
  assumes inv: "dfs_inv g src d"
    and cb: "cb \<le> fsi" and k: "fsi < length (index_branch d)"
  shows "dfs_inv g src
           ((cancel_cycle g node arc cb mf fsi d)
              \<lparr>arc_stack := take (index_branch d ! fsi) (arc_stack d),
               index_branch := take fsi (index_branch d)\<rparr>)"
proof -
  let ?S = "arc_stack d" and ?B = "index_branch d" and ?V = "visited d" and ?T = "stored d"
  let ?d1 = "cancel_cycle g node arc cb mf fsi d"
  let ?V' = "visited ?d1"
  note I = dfs_invD[OF inv]
  have V': "?V' v = (?V v \<and> \<not> (\<exists>i. fsi \<le> i \<and> i < length ?B \<and> Head g (?S ! (?B ! i)) = v))" for v
    using cb by (auto simp: cancel_cycle_visited)
  have mem: "?B ! i \<in> set ?B" if "i < length ?B" for i using that by simp
  have Vsrc: "?V' src" using I(6) I(8) mem by (auto simp: V')
  have TV: "\<forall>v. ?T v \<longrightarrow> ?V' v" using I(7) I(8) mem by (auto simp: V')
  have keep: "\<forall>i<fsi. ?V' (Head g (?S ! (?B ! i))) \<and> \<not> ?T (Head g (?S ! (?B ! i)))"
  proof (intro allI impI)
    fix i assume i: "i < fsi"
    with k have il: "i < length ?B" by simp
    have ne: "Head g (?S ! (?B ! i')) \<noteq> Head g (?S ! (?B ! i))" if "fsi \<le> i'" "i' < length ?B" for i'
    proof
      assume e: "Head g (?S ! (?B ! i')) = Head g (?S ! (?B ! i))"
      with I(9) mem[OF il] mem[OF that(2)] have "?B ! i' = ?B ! i" by (auto simp: inj_on_def)
      moreover have "?B ! i < ?B ! i'"
        using sorted_wrt_less_nth_mono[OF I(3) _ that(2), of i] i that(1) by simp
      ultimately show False by simp
    qed
    from I(8) mem[OF il] have "?V (Head g (?S ! (?B ! i)))" "\<not> ?T (Head g (?S ! (?B ! i)))" by auto
    with ne show "?V' (Head g (?S ! (?B ! i))) \<and> \<not> ?T (Head g (?S ! (?B ! i)))"
      by (auto simp: V')
  qed
  have sub: "\<forall>v. ?V' v \<longrightarrow> \<not> ?T v \<longrightarrow> ?V v \<and> \<not> ?T v \<and>
          (\<forall>i. fsi \<le> i \<longrightarrow> i < length ?B \<longrightarrow> Head g (?S ! (?B ! i)) \<noteq> v)"
    by (auto simp: V')
  from dfs_inv_truncate[OF inv k Vsrc TV keep sub]
  have "dfs_inv g src (d\<lparr>visited := ?V', stored := ?T,
           arc_stack := take (?B ! fsi) ?S, index_branch := take fsi ?B\<rparr>)" .
  then show ?thesis
    by (simp add: dfs_inv_cong[where d' = "?d1\<lparr>arc_stack := take (?B ! fsi) ?S,
               index_branch := take fsi ?B\<rparr>" and d = "d\<lparr>visited := ?V', stored := ?T,
           arc_stack := take (?B ! fsi) ?S, index_branch := take fsi ?B\<rparr>"])
qed

lemma dfs_inv_cancel_keep:
  assumes inv: "dfs_inv g src d" and k: "length (index_branch d) \<le> fsi"
  shows "dfs_inv g src (cancel_cycle g node arc cb mf fsi d)"
proof -
  have "visited (cancel_cycle g node arc cb mf fsi d) = visited d"
    using k by (auto simp: cancel_cycle_visited fun_eq_iff)
  then show ?thesis
    using inv by (simp add: dfs_inv_cong[where d' = "cancel_cycle g node arc cb mf fsi d" and d = d])
qed

text \<open>The scan of the arcs leaving the node at the end of the branch.\<close>

lemma dfs_arcs_keeps:
  assumes "dfs_inv g src d" and "index_branch d \<noteq> []"
    and "Head g (arc_stack d ! last (index_branch d)) = node"
    and "\<forall>a\<in>set arcs. Tail g a = node \<and> a \<in> set (direct_arcs g)"
    and "\<forall>v. FlowQuantity_in_range (node_excess (solver d) v)"
  shows "dfs_inv g src (dfs_arcs g node arcs d) \<and>
         node_excess (solver (dfs_arcs g node arcs d)) = node_excess (solver d)"
  using assms
proof (induction arcs arbitrary: d)
  case Nil
  then show ?case by simp
next
  case (Cons arc arcs)
  note inv = Cons.prems(1) and ne = Cons.prems(2) and top = Cons.prems(3) and rg = Cons.prems(5)
  from Cons.prems(4) have tail: "Tail g arc = node" and dir: "arc \<in> set (direct_arcs g)"
    and rest: "\<forall>a\<in>set arcs. Tail g a = node \<and> a \<in> set (direct_arcs g)" by simp_all
  let ?S = "arc_stack d" and ?B = "index_branch d"
  let ?head = "Head g arc"
  show ?case
  proof (cases "Flow g (solver d) arc > 0 \<and> \<not> stored d ?head")
    case False
    with Cons.IH[OF inv ne top rest rg] show ?thesis by (auto simp: Let_def)
  next
    case True
    show ?thesis
    proof (cases "visited d ?head")
      case False
      let ?d' = "d\<lparr>arc_stack := ?S @ [arc]\<rparr>"
      have lt: "last ?B < length ?S" using dfs_invD(4)[OF inv] ne by simp
      have 1: "dfs_inv g src ?d'"
        using dfs_inv_push[OF inv ne _ dir False] tail top by simp
      have 2: "Head g (arc_stack ?d' ! last (index_branch ?d')) = node"
        using top lt by (simp add: nth_append)
      from Cons.IH[OF 1 _ 2 rest] ne rg True False show ?thesis by (simp add: Let_def)
    next
      case vis: True
      let ?cb = "find_cycle_begin g ?S ?B ?head (length ?B)"
      let ?mf = "cycle_max_flow g d ?cb (Flow g (solver d) arc)"
      let ?d1 = "cancel_cycle g node arc ?cb (fst ?mf) (snd ?mf) d"
      have ex: "node_excess (solver ?d1) = node_excess (solver d)"
        using cancel_cycle_keeps_excess[OF inv ne top tail vis _ rg] True by simp
      show ?thesis
      proof (cases "snd ?mf < length ?B")
        case T: True
        with cycle_max_flow_index[of g d ?cb "Flow g (solver d) arc"] have "?cb \<le> snd ?mf" by simp
        from dfs_inv_cancel_truncate[OF inv this T, of node arc "fst ?mf"] ex True vis T
        show ?thesis by (simp add: Let_def)
      next
        case F: False
        then have "length ?B \<le> snd ?mf" by simp
        from dfs_inv_cancel_keep[OF inv this, of node arc ?cb "fst ?mf"]
        have 1: "dfs_inv g src ?d1" .
        have 2: "index_branch ?d1 \<noteq> []" "Head g (arc_stack ?d1 ! last (index_branch ?d1)) = node"
          using ne top by simp_all
        have 3: "\<forall>v. FlowQuantity_in_range (node_excess (solver ?d1) v)" using rg ex by simp
        from Cons.IH[OF 1 2 rest 3] ex True vis F show ?thesis by (simp add: Let_def)
      qed
    qed
  qed
qed

lemma graph_ok_OutgoingArcs:
  assumes "graph_ok g" and "v < num_nodes g"
  shows "\<forall>a\<in>set (OutgoingArcs g v). Tail g a = v \<and> a \<in> set (direct_arcs g)"
proof -
  from assms have "set (OutgoingArcs g v) = set (filter (\<lambda>a. Tail g a = v) (direct_arcs g))"
    by (simp add: graph_ok_def)
  then show ?thesis by simp
qed

lemma dfs_loop_keeps:
  "dfs_loop g d = Some d' \<Longrightarrow>
   graph_ok g \<and> dfs_inv g src d \<and> (\<forall>v. FlowQuantity_in_range (node_excess (solver d) v)) \<longrightarrow>
   node_excess (solver d') = node_excess (solver d)"
proof (induct rule: dfs_loop_induct)
  case (step loop g d d')
  show ?case
  proof
    assume a: "graph_ok g \<and> dfs_inv g src d \<and> (\<forall>v. FlowQuantity_in_range (node_excess (solver d) v))"
    then have ok: "graph_ok g" and inv: "dfs_inv g src d"
      and rg: "\<forall>v. FlowQuantity_in_range (node_excess (solver d) v)" by simp_all
    show "node_excess (solver d') = node_excess (solver d)"
    proof (cases "arc_stack d = []")
      case True
      with step(2) show ?thesis by simp
    next
      case False
      let ?node = "Head g (last (arc_stack d))"
      show ?thesis
      proof (cases "visited d ?node")
        case True
        note vis = this
        show ?thesis
        proof (cases "stored d ?node")
          case True
          with vis False step(2) have "loop g (d\<lparr>arc_stack := butlast (arc_stack d)\<rparr>) = Some d'"
            by (simp add: Let_def)
          from step(1)[OF this] ok rg dfs_inv_pop_stored[OF inv False True] show ?thesis by simp
        next
          case F: False
          with vis False step(2) have ne: "index_branch d \<noteq> []"
            by (auto simp: Let_def split: if_splits)
          with F vis False step(2) have
            "loop g (d\<lparr>stored := (stored d)(?node := True),
                           reverse_topological_order := reverse_topological_order d @ [?node],
                           index_branch := butlast (index_branch d),
                           arc_stack := butlast (arc_stack d)\<rparr>) = Some d'"
            by (simp add: Let_def)
          from step(1)[OF this] ok rg
            dfs_inv_pop_branch[OF inv False ne vis F, of "reverse_topological_order d @ [?node]"]
          show ?thesis by simp
        qed
      next
        case F: False
        let ?d0 = "d\<lparr>visited := (visited d)(?node := True),
                     index_branch := index_branch d @ [length (arc_stack d) - 1]\<rparr>"
        from F False step(2) have l:
          "loop g (dfs_arcs g ?node (OutgoingArcs g ?node) ?d0) = Some d'"
          by (simp add: Let_def)
        have 1: "dfs_inv g src ?d0" by (rule dfs_inv_expand[OF inv False F])
        have 2: "index_branch ?d0 \<noteq> []" by simp
        have 3: "Head g (arc_stack ?d0 ! last (index_branch ?d0)) = ?node"
          using False by (simp add: last_conv_nth)
        have "last (arc_stack d) \<in> set (direct_arcs g)"
          using dfs_invD(2)[OF inv] False by auto
        then have "?node < num_nodes g" by (rule graph_ok_direct(5)[OF ok])
        then have 4: "\<forall>a\<in>set (OutgoingArcs g ?node). Tail g a = ?node \<and> a \<in> set (direct_arcs g)"
          by (rule graph_ok_OutgoingArcs[OF ok])
        have 5: "\<forall>v. FlowQuantity_in_range (node_excess (solver ?d0) v)" using rg by simp
        from dfs_arcs_keeps[OF 1 2 3 4 5]
        have k: "dfs_inv g src (dfs_arcs g ?node (OutgoingArcs g ?node) ?d0)"
          "node_excess (solver (dfs_arcs g ?node (OutgoingArcs g ?node) ?d0)) = node_excess (solver d)"
          by simp_all
        from step(1)[OF l] ok k rg show ?thesis by simp
      qed
    qed
  qed
qed

lemma dfs_search_keeps_excess:
  assumes "graph_ok g" and "source st < num_nodes g"
    and "\<forall>v. FlowQuantity_in_range (node_excess st v)"
    and "dfs_loop g (dfs_start g st) = Some d'"
  shows "node_excess (solver d') = node_excess st"
proof -
  have "solver (dfs_start g st) = st" by (simp add: dfs_start_def)
  with dfs_loop_keeps[OF assms(4), of "source st"] dfs_inv_start[OF assms(1,2)] assms(1,3)
  show ?thesis by simp
qed

lemma graph_ok_cycle_graph: "graph_ok cycle_graph"
  by (auto simp add: graph_ok_def cycle_graph_def list_graph_def direct_arcs_def all_arcs_def
      Opposite_def upt_rec opposite_index_differs nth_Cons')

lemma cycle_solver_excess:
  "node_excess cycle_solver = (\<lambda>v. if v = 0 then - 1 else if v = 3 then 1 else 0)"
  by (simp add: cycle_solver_def PushFlow_def FlowQuantity_store_def Let_def fun_eq_iff
      cycle_graph_def list_graph_def GenericMaxFlow_new_def with_capacities_def
      SetArcCapacity_def SetCapacityAndClearFlow_def Capacity_def IsArcDirect_def Opposite_def)

lemma cycle_search_returns:
  "(case dfs_loop cycle_graph (dfs_start cycle_graph cycle_solver) of
      Some d' \<Rightarrow>
        map (Flow cycle_graph (solver d')) [0, 1, 2, 3] = [1, 1, 0, 1] \<and>
        reverse_topological_order d' = [2, 1]
    | None \<Rightarrow> False)"
  by code_simp

lemma cycle_detected_facts:
  "map (Flow cycle_graph cycle_solver) [0, 1, 2, 3] = [1, 3, 2, 1]"
  "find_cycle_begin cycle_graph (arc_stack cycle_detected) (index_branch cycle_detected)
     (Head cycle_graph 2) (length (index_branch cycle_detected)) = 1"
  "cycle_max_flow cycle_graph cycle_detected 1 (Flow cycle_graph cycle_solver 2) = (2, 2)"
  "map (Flow cycle_graph (solver (cancel_cycle cycle_graph 2 2 1 2 2 cycle_detected))) [0, 1, 2, 3]
     = [1, 1, 0, 1]"
  "Tail cycle_graph 2 = 2"
  by code_simp+

lemma cycle_detected_path:
  "branch_is_path cycle_graph 0 cycle_detected" "closes_cycle cycle_graph 0 cycle_detected 2"
  by (auto simp add: branch_is_path_def closes_cycle_def cycle_detected_def cycle_graph_def
      list_graph_def less_Suc_eq intro!: exI[of _ 0])

text \<open>
  C9. The arcs of the current branch of the search form a path that starts at the source
  (\<open>branch_is_path\<close>), and a cycle is detected when an arc leaving the node at the end of
  that path has its head on the path (\<open>closes_cycle\<close>). Whenever the node excesses are
  64-bit values, cancelling such a cycle, whatever the quantity pushed back, leaves
  \<open>excess[v]\<close> as it was for every node \<open>v\<close> and changes nothing of the solver but its
  residual capacities. On a well-formed graph whose source is a node, the search of
  \<^verbatim>\<open>PushFlowExcessBackToSource\<close> detects only such cycles: when it returns, every
  excess is what it was when the search started.
\<close>

theorem cancelling_a_cycle_keeps_every_excess:
  "(branch_is_path g src d \<and> closes_cycle g src d arc \<and>
    (\<forall>v. FlowQuantity_in_range (node_excess (solver d) v)) \<longrightarrow>
      (\<forall>max_flow first_saturated_index.
         node_excess (solver (cancel_cycle g (Tail g arc) arc
             (find_cycle_begin g (arc_stack d) (index_branch d) (Head g arc) (length (index_branch d)))
             max_flow first_saturated_index d)) = node_excess (solver d) \<and>
         (\<exists>r. solver (cancel_cycle g (Tail g arc) arc
             (find_cycle_begin g (arc_stack d) (index_branch d) (Head g arc) (length (index_branch d)))
             max_flow first_saturated_index d) = (solver d)\<lparr>residual_arc_capacity := r\<rparr>))) \<and>
   (graph_ok g \<and> source st < num_nodes g \<and> (\<forall>v. FlowQuantity_in_range (node_excess st v)) \<longrightarrow>
      (\<forall>d'. dfs_loop g (dfs_start g st) = Some d' \<longrightarrow> node_excess (solver d') = node_excess st))"
proof (intro conjI impI allI)
  fix max_flow first_saturated_index
  let ?d1 = "cancel_cycle g (Tail g arc) arc
      (find_cycle_begin g (arc_stack d) (index_branch d) (Head g arc) (length (index_branch d)))
      max_flow first_saturated_index d"
  assume a: "branch_is_path g src d \<and> closes_cycle g src d arc \<and>
    (\<forall>v. FlowQuantity_in_range (node_excess (solver d) v))"
  then show e: "node_excess (solver ?d1) = node_excess (solver d)"
    using cancel_cycle_on_path[of g src d arc max_flow first_saturated_index] by simp
  have "solver ?d1 = (solver d)\<lparr>residual_arc_capacity := residual_arc_capacity (solver ?d1),
          node_excess := node_excess (solver ?d1)\<rparr>"
    by (rule cancel_cycle_frame)
  with e have "solver ?d1 = (solver d)\<lparr>residual_arc_capacity := residual_arc_capacity (solver ?d1)\<rparr>"
    by simp
  then show "\<exists>r. solver ?d1 = (solver d)\<lparr>residual_arc_capacity := r\<rparr>"
    by (rule exI[where x = "residual_arc_capacity (solver ?d1)"])
next
  fix d'
  assume "graph_ok g \<and> source st < num_nodes g \<and> (\<forall>v. FlowQuantity_in_range (node_excess st v))"
    and "dfs_loop g (dfs_start g st) = Some d'"
  then show "node_excess (solver d') = node_excess st"
    using dfs_search_keeps_excess[of g st d'] by simp
qed

theorem cancelling_a_cycle_keeps_every_excess_witness:
  "branch_is_path cycle_graph 0 cycle_detected \<and> closes_cycle cycle_graph 0 cycle_detected 2 \<and>
   (\<forall>v. FlowQuantity_in_range (node_excess (solver cycle_detected) v)) \<and>
   map (Flow cycle_graph (solver cycle_detected)) [0, 1, 2, 3] = [1, 3, 2, 1] \<and>
   cycle_max_flow cycle_graph cycle_detected 1 (Flow cycle_graph (solver cycle_detected) 2) = (2, 2) \<and>
   map (Flow cycle_graph (solver (cancel_cycle cycle_graph 2 2 1 2 2 cycle_detected))) [0, 1, 2, 3]
     = [1, 1, 0, 1] \<and>
   node_excess (solver (cancel_cycle cycle_graph 2 2 1 2 2 cycle_detected))
     = node_excess (solver cycle_detected) \<and>
   graph_ok cycle_graph \<and> source cycle_solver < num_nodes cycle_graph \<and>
   (\<forall>v. FlowQuantity_in_range (node_excess cycle_solver v)) \<and>
   (case dfs_loop cycle_graph (dfs_start cycle_graph cycle_solver) of
      Some d' \<Rightarrow>
        node_excess (solver d') = node_excess cycle_solver \<and>
        map (Flow cycle_graph (solver d')) [0, 1, 2, 3] = [1, 1, 0, 1]
    | None \<Rightarrow> False)"
proof -
  note T = cancelling_a_cycle_keeps_every_excess[of cycle_graph 0 cycle_detected 2 cycle_solver]
  have s: "solver cycle_detected = cycle_solver" by (simp add: cycle_detected_def)
  have rg: "\<forall>v. FlowQuantity_in_range (node_excess cycle_solver v)"
    by (simp add: cycle_solver_excess FlowQuantity_in_range_def)
  have src: "source cycle_solver < num_nodes cycle_graph"
    by code_simp
  have h1: "branch_is_path cycle_graph 0 cycle_detected \<and> closes_cycle cycle_graph 0 cycle_detected 2 \<and>
    (\<forall>v. FlowQuantity_in_range (node_excess (solver cycle_detected) v))"
    using cycle_detected_path rg unfolding s by (intro conjI)
  have h2: "graph_ok cycle_graph \<and> source cycle_solver < num_nodes cycle_graph \<and>
    (\<forall>v. FlowQuantity_in_range (node_excess cycle_solver v))"
    using graph_ok_cycle_graph src rg by (intro conjI)
  have 1: "node_excess (solver (cancel_cycle cycle_graph 2 2 1 2 2 cycle_detected))
     = node_excess (solver cycle_detected)"
    using T[THEN conjunct1, THEN mp, OF h1, THEN spec, THEN spec, THEN conjunct1, of 2 2]
    by (simp only: cycle_detected_facts(2,5))
  from cycle_search_returns obtain d' where
    d': "dfs_loop cycle_graph (dfs_start cycle_graph cycle_solver) = Some d'"
      "map (Flow cycle_graph (solver d')) [0, 1, 2, 3] = [1, 1, 0, 1]"
    by (auto split: option.splits)
  have 2: "node_excess (solver d') = node_excess cycle_solver"
    by (rule T[THEN conjunct2, THEN mp, OF h2, THEN spec, THEN mp, OF d'(1)])
  have c: "(case dfs_loop cycle_graph (dfs_start cycle_graph cycle_solver) of
      Some d' \<Rightarrow>
        node_excess (solver d') = node_excess cycle_solver \<and>
        map (Flow cycle_graph (solver d')) [0, 1, 2, 3] = [1, 1, 0, 1]
    | None \<Rightarrow> False)"
    unfolding d'(1) using 2 d'(2) by simp
  have f: "map (Flow cycle_graph (solver cycle_detected)) [0, 1, 2, 3] = [1, 3, 2, 1]"
    "cycle_max_flow cycle_graph cycle_detected 1 (Flow cycle_graph (solver cycle_detected) 2) = (2, 2)"
    unfolding s by (rule cycle_detected_facts)+
  from h1 f cycle_detected_facts(4) 1 h2 c show ?thesis by (intro conjI) (simp_all only: simp_thms)
qed

section \<open>Node heights on a chain\<close>

text \<open>
  C3. The source documents that the height of a node never exceeds twice the number of
  nodes, and the claim bounds it by \<open>2n - 1\<close>. On the chain of five nodes
  \<^verbatim>\<open>GlobalUpdate\<close> gives node 1, which cannot reach the sink once its excess was taken,
  the height \<open>2n - 1 = 9\<close>; \<^verbatim>\<open>Relabel\<close> then lifts node 2 to 10 and node 3 to 11.
  \<^verbatim>\<open>Solve\<close> returns the maximum flow 1 with these heights.
\<close>

theorem Solve_chain_heights:
  "(case Solve chain_graph chain_solver of
      Some (Inr (ok, st')) \<Rightarrow>
        (ok, status st', map (node_potential st') [0, 1, 2, 3, 4], map (node_excess st') [0, 1, 2, 3, 4])
    | _ \<Rightarrow> (False, NOT_SOLVED, [], []))
   = (True, OPTIMAL, [5, 9, 10, 11, 0], [- 1, 0, 0, 0, 1])"
  by code_simp

end
